theory Spec2Isabelle
  imports Main "HOL-Library.Sublist"
begin

section \<open>Text primitives\<close>

text \<open>
  Python strings are sequences of code points. The model takes a text to be a list of
  \<^typ>\<open>char\<close>, one \<^typ>\<open>char\<close> per code point, which covers the code points
  below 256 (ASCII and Latin-1); \<open>length\<close> is then Python's \<open>len\<close>. The character
  classes below are Python's classes restricted to that range.
\<close>

definition code :: "char \<Rightarrow> nat" where
  "code c = of_char c"

text \<open>\<open>str.strip()\<close> and the regex class \<open>\s\<close> use the same whitespace set.\<close>

definition is_space :: "char \<Rightarrow> bool" where
  "is_space c = (let n = code c in
     (9 \<le> n \<and> n \<le> 13) \<or> (28 \<le> n \<and> n \<le> 32) \<or> n = 133 \<or> n = 160)"

text \<open>The regex class \<open>\d\<close>.\<close>

definition is_digit :: "char \<Rightarrow> bool" where
  "is_digit c = (let n = code c in 48 \<le> n \<and> n \<le> 57)"

text \<open>The capital-letter class of the heading patterns: \<open>A\<close> to \<open>Z\<close>, and U+00C0 up to U+0178.\<close>

definition is_cap :: "char \<Rightarrow> bool" where
  "is_cap c = (let n = code c in (65 \<le> n \<and> n \<le> 90) \<or> 192 \<le> n)"

text \<open>The same class under \<open>re.IGNORECASE\<close>: the ASCII lower-case letters join it.\<close>

definition is_cap_ci :: "char \<Rightarrow> bool" where
  "is_cap_ci c = (let n = code c in
     (65 \<le> n \<and> n \<le> 90) \<or> (97 \<le> n \<and> n \<le> 122) \<or> 192 \<le> n)"

text \<open>The regex class \<open>[.!?]\<close>.\<close>

definition is_term :: "char \<Rightarrow> bool" where
  "is_term c = (c = CHR ''.'' \<or> c = CHR ''!'' \<or> c = CHR ''?'')"

definition newline :: char where
  "newline = CHR 0x0A"

text \<open>Case-insensitive comparison of a pattern letter with a text character.\<close>

definition fold_case :: "char \<Rightarrow> nat" where
  "fold_case c = (let n = code c in if 65 \<le> n \<and> n \<le> 90 then n + 32 else n)"

definition ci_eq :: "char \<Rightarrow> char \<Rightarrow> bool" where
  "ci_eq p c = (fold_case p = fold_case c)"

text \<open>
  \<open>str.upper()\<close>. The sharp s becomes \<open>SS\<close>. The upper-case forms of U+00B5 and
  U+00FF lie above U+00FF; the model leaves these two characters as they are, which
  changes no length and no comparison with an ASCII word.
\<close>

definition upper_char :: "char \<Rightarrow> string" where
  "upper_char c = (let n = code c in
     if 97 \<le> n \<and> n \<le> 122 then [char_of (n - 32)]
     else if n = 223 then ''SS''
     else if 224 \<le> n \<and> n \<le> 254 \<and> n \<noteq> 247 then [char_of (n - 32)]
     else [c])"

definition upper :: "string \<Rightarrow> string" where
  "upper s = concat (map upper_char s)"

text \<open>\<open>str.strip()\<close>, and its two halves.\<close>

definition lstrip :: "string \<Rightarrow> string" where
  "lstrip s = dropWhile is_space s"

definition rstrip :: "string \<Rightarrow> string" where
  "rstrip s = rev (dropWhile is_space (rev s))"

definition strip :: "string \<Rightarrow> string" where
  "strip s = rstrip (lstrip s)"

text \<open>\<open>s.split(sep)\<close> for a one-character separator: never empty, one more piece
  than there are separators.\<close>

fun split_on :: "char \<Rightarrow> string \<Rightarrow> string list" where
  "split_on sep [] = [[]]"
| "split_on sep (c # cs) =
     (if c = sep then [] # split_on sep cs
      else (case split_on sep cs of
              [] \<Rightarrow> [[c]]
            | l # ls \<Rightarrow> (c # l) # ls))"

text \<open>\<open>'\n'.join(lines)\<close>.\<close>

fun join_lines :: "string list \<Rightarrow> string" where
  "join_lines [] = []"
| "join_lines [l] = l"
| "join_lines (l # ls) = l @ newline # join_lines ls"

text \<open>\<open>str(n)\<close> for a non-negative integer: its decimal digits.\<close>

fun str_nat :: "nat \<Rightarrow> string" where
  "str_nat n = (if n < 10 then [char_of (48 + n)]
                else str_nat (n div 10) @ [char_of (48 + n mod 10)])"

text \<open>
  \<open>int(s)\<close> for a string of decimal digits: the value of the digits. The interpreter
  refuses a string of more than 4300 digits with a \<open>ValueError\<close>, which is \<open>None\<close> here.
\<close>

definition int_of_digits :: "string \<Rightarrow> nat" where
  "int_of_digits s = foldl (\<lambda>a c. 10 * a + (code c - 48)) 0 s"

definition py_int :: "string \<Rightarrow> nat option" where
  "py_int s = (if length s > 4300 then None else Some (int_of_digits s))"

text \<open>\<open>needle in haystack\<close>.\<close>

definition contains :: "string \<Rightarrow> string \<Rightarrow> bool" where
  "contains needle haystack = (\<exists>t \<in> set (suffixes haystack). prefix needle t)"

section \<open>Regular expressions\<close>

text \<open>
  Each regular expression of the source is a sequence of literals and character classes.
  A matcher takes the text at the current position and returns the text after the match,
  or \<open>None\<close>. A repetition is greedy; in every pattern of the source the class that is
  repeated is disjoint from what follows it, so giving characters back cannot turn a
  failure into a match, and the longest repetition is the only one to try. The one
  exception, \<open>\s*$\<close>, is written out where it occurs.
\<close>

type_synonym matcher = "string \<Rightarrow> string option"

fun lit_ci :: "string \<Rightarrow> matcher" where
  "lit_ci [] s = Some s"
| "lit_ci (p # ps) [] = None"
| "lit_ci (p # ps) (c # cs) = (if ci_eq p c then lit_ci ps cs else None)"

fun lit :: "string \<Rightarrow> matcher" where
  "lit [] s = Some s"
| "lit (p # ps) [] = None"
| "lit (p # ps) (c # cs) = (if p = c then lit ps cs else None)"

definition one :: "(char \<Rightarrow> bool) \<Rightarrow> matcher" where
  "one P s = (case s of [] \<Rightarrow> None | c # cs \<Rightarrow> if P c then Some cs else None)"

definition many :: "(char \<Rightarrow> bool) \<Rightarrow> matcher" where
  "many P s = Some (dropWhile P s)"

definition many1 :: "(char \<Rightarrow> bool) \<Rightarrow> matcher" where
  "many1 P s = (if takeWhile P s = [] then None else Some (dropWhile P s))"

definition at_least :: "nat \<Rightarrow> (char \<Rightarrow> bool) \<Rightarrow> matcher" where
  "at_least k P s = (if length (takeWhile P s) < k then None else Some (dropWhile P s))"

definition opt :: "(char \<Rightarrow> bool) \<Rightarrow> matcher" where
  "opt P s = Some (case s of [] \<Rightarrow> [] | c # cs \<Rightarrow> if P c then cs else s)"

definition seq :: "matcher \<Rightarrow> matcher \<Rightarrow> matcher" where
  "seq m1 m2 s = (case m1 s of None \<Rightarrow> None | Some r \<Rightarrow> m2 r)"

definition matches :: "matcher \<Rightarrow> string \<Rightarrow> bool" where
  "matches m s = (m s \<noteq> None)"

section \<open>Data model (models.py)\<close>

text \<open>
  The records keep the fields that the table-of-contents detector, the section extractor
  and the chunker read or write. The \<open>embedding\<close> fields, which these components leave
  at \<open>None\<close>, and the descriptive fields of \<open>Document\<close> that they never read are left out.
  \<open>documentId\<close>, \<open>sectionId\<close>, \<open>content\<close> and \<open>pageNumber\<close> occur in several classes of
  the source; a record field is a constant, so the later records prefix them.
\<close>

record Document =
  documentId :: string
  doc_type :: string
  pageCount :: nat
  fullText :: string

record TableOfContents =
  tocId :: string
  t_documentId :: string
  rawText :: string
  startPage :: int
  endPage :: int
  hasHeader :: bool
  headerText :: "string option"
  entryCount :: nat
  detectionMethod :: string

record Section =
  sectionId :: string
  s_documentId :: string
  sectionNumber :: string
  title :: string
  content :: string
  sectionType :: string
  level :: nat
  pageNumber :: int
  order :: nat
  parentSectionId :: "string option"

record Chunk =
  chunkId :: string
  c_documentId :: string
  c_sectionId :: string
  c_content :: string
  chunkIndex :: nat
  c_pageNumber :: int
  metadata :: "(string \<times> string) list"

section \<open>Section extraction (section_extractor.py)\<close>

subsection \<open>Heading patterns\<close>

definition colon :: "char \<Rightarrow> bool" where
  "colon c = (c = CHR '':'')"

definition dot :: "char \<Rightarrow> bool" where
  "dot c = (c = CHR ''.'')"

text \<open>A named pattern such as \<open>^OGGETTO\s*:?\<close>, matched with \<open>re.IGNORECASE\<close>.\<close>

definition named_colon :: "string \<Rightarrow> matcher" where
  "named_colon w = seq (lit_ci w) (seq (many is_space) (opt colon))"

text \<open>A named pattern of two words such as \<open>^PARERE\s+DELL\<close>.\<close>

definition named_pair :: "string \<Rightarrow> string \<Rightarrow> matcher" where
  "named_pair w1 w2 = seq (lit_ci w1) (seq (many1 is_space) (lit_ci w2))"

definition named_sections :: "matcher list" where
  "named_sections =
     [named_colon ''OGGETTO'',
      named_colon ''QUESITO'',
      named_pair ''SOLUZIONE'' ''INTERPRETATIVA'',
      named_pair ''PARERE'' ''DELL'',
      named_colon ''MOTIVAZIONE'',
      named_colon ''CONCLUSIONE'',
      named_colon ''INDICE'',
      named_colon ''PREMESSA'',
      named_colon ''RISPOSTA'',
      named_colon ''ISTANZA'',
      named_colon ''SOMMARIO'']"

definition numbered_patterns :: "matcher list" where
  "numbered_patterns =
     [seq (many1 is_digit) (seq (one dot) (seq (many1 is_space) (one is_cap))),
      seq (many1 is_digit) (seq (one dot) (seq (many1 is_digit)
        (seq (many1 is_space) (one is_cap)))),
      seq (many1 is_digit) (seq (one dot) (seq (many1 is_digit) (seq (one dot)
        (seq (many1 is_digit) (seq (many1 is_space) (one is_cap)))))),
      seq (many1 is_digit) (seq (many1 is_space) (seq (one is_cap)
        (at_least 10 (\<lambda>c. is_cap c \<or> is_space c))))]"

text \<open>
  The leading numbering \<open>^(\d+(?:\.\d+)*)\<close>: a run of digits, then as many groups of a
  dot and a run of digits as follow. \<open>dotted_tail\<close> is the text of those groups.
\<close>

function dotted_tail :: "string \<Rightarrow> string" where
  "dotted_tail [] = []"
| "dotted_tail (c # r) =
     (if c = CHR ''.'' \<and> takeWhile is_digit r \<noteq> []
      then c # takeWhile is_digit r @ dotted_tail (dropWhile is_digit r)
      else [])"
  by pat_completeness auto
termination
  by (relation "measure length") (auto simp: less_Suc_eq_le length_dropWhile_le)

definition numbering :: "string \<Rightarrow> string option" where
  "numbering header =
     (if takeWhile is_digit header = [] then None
      else Some (takeWhile is_digit header @ dotted_tail (dropWhile is_digit header)))"

definition extract_level :: "string \<Rightarrow> nat" where
  "extract_level header =
     (case numbering header of
        Some n \<Rightarrow> length (split_on (CHR ''.'') n)
      | None \<Rightarrow> 1)"

text \<open>
  \<open>_is_section_header\<close> returns a triple; \<open>(False, None, 0)\<close> is \<open>None\<close> here and
  \<open>(True, section_type, level)\<close> is \<open>Some (section_type, level)\<close>.
\<close>

definition is_section_header :: "string \<Rightarrow> (string \<times> nat) option" where
  "is_section_header line =
     (if list_ex (\<lambda>pattern. matches pattern line) named_sections
      then Some (''named'', 1)
      else if list_ex (\<lambda>pattern. matches pattern line) numbered_patterns
      then Some (''numbered'', extract_level line)
      else None)"

text \<open>The name of a named heading: \<open>^([A-Z\<dots>\s]+)\<close> with \<open>re.IGNORECASE\<close>.\<close>

definition name_match :: "string \<Rightarrow> string option" where
  "name_match header =
     (let g = takeWhile (\<lambda>c. is_cap_ci c \<or> is_space c) header
      in if g = [] then None else Some g)"

fun named_number :: "matcher list \<Rightarrow> string \<Rightarrow> string option" where
  "named_number [] header = None"
| "named_number (pattern # ps) header =
     (if matches pattern header
      then (case name_match header of
              Some g \<Rightarrow> Some (upper (strip g))
            | None \<Rightarrow> named_number ps header)
      else named_number ps header)"

definition extract_section_number :: "string \<Rightarrow> string" where
  "extract_section_number header =
     (case numbering header of
        Some n \<Rightarrow> n
      | None \<Rightarrow> (case named_number named_sections header of
                   Some n \<Rightarrow> n
                 | None \<Rightarrow> ''UNKNOWN''))"

subsection \<open>Creating a section\<close>

definition section_id :: "string \<Rightarrow> nat \<Rightarrow> string" where
  "section_id doc_id n = doc_id @ ''_SEC_'' @ str_nat n"

definition create_section ::
  "Document \<Rightarrow> nat \<Rightarrow> string \<Rightarrow> string list \<Rightarrow> string \<Rightarrow> int \<Rightarrow> nat \<Rightarrow> Section" where
  "create_section document ord header content_lines section_type page_number lvl =
     \<lparr> sectionId = section_id (documentId document) ord,
       s_documentId = documentId document,
       sectionNumber = extract_section_number header,
       title = take 200 header,
       content = strip (join_lines content_lines),
       sectionType = section_type,
       level = lvl,
       pageNumber = page_number,
       order = ord,
       parentSectionId = None \<rparr>"

subsection \<open>The line scan of \<open>extract_sections\<close>\<close>

text \<open>
  The local variables of the loop. \<open>current_section_header\<close> and
  \<open>current_section_type\<close> start as \<open>None\<close> and are assigned together, so the model
  keeps them as one optional pair. \<open>current_section_start_line\<close> is written and never
  read, and is left out.
\<close>

record scan_state =
  sections :: "Section list"
  current_section_lines :: "string list"
  current_section :: "(string \<times> string) option"
  current_page :: int
  section_counter :: nat

definition lines_per_page :: nat where
  "lines_per_page = 50"

definition init_state :: scan_state where
  "init_state =
     \<lparr> sections = [], current_section_lines = [], current_section = None,
       current_page = 1, section_counter = 0 \<rparr>"

text \<open>The test \<open>if current_section_header\<close>: not \<open>None\<close> and not the empty string.\<close>

definition header_set :: "scan_state \<Rightarrow> bool" where
  "header_set st = (case current_section st of
                      None \<Rightarrow> False
                    | Some (header, section_type) \<Rightarrow> header \<noteq> [])"

text \<open>
  ``Save previous section if exists'': under
  \<open>if current_section_header and current_section_lines\<close> the section is created with
  the current counter and page, appended, and the counter goes up.
\<close>

definition save_section :: "Document \<Rightarrow> scan_state \<Rightarrow> scan_state" where
  "save_section document st =
     (case current_section st of
        None \<Rightarrow> st
      | Some (header, section_type) \<Rightarrow>
          if header \<noteq> [] \<and> current_section_lines st \<noteq> []
          then st\<lparr> sections := sections st @
                       [create_section document (section_counter st) header
                          (current_section_lines st) section_type (current_page st)
                          (extract_level header)],
                   section_counter := section_counter st + 1 \<rparr>
          else st)"

text \<open>One iteration of \<open>for line_num, line in enumerate(lines)\<close>.\<close>

definition scan_step :: "Document \<Rightarrow> nat \<times> string \<Rightarrow> scan_state \<Rightarrow> scan_state" where
  "scan_step document nl st =
     (let line_num = fst nl;
          line = snd nl;
          line_stripped = strip line;
          st1 = st\<lparr> current_page := int (line_num div lines_per_page) + 1 \<rparr>
      in if line_stripped = [] then st1
         else (case is_section_header line_stripped of
                 Some (section_type, lvl) \<Rightarrow>
                   (save_section document st1)
                     \<lparr> current_section := Some (line_stripped, section_type),
                       current_section_lines := [] \<rparr>
               | None \<Rightarrow>
                   if header_set st1
                   then st1\<lparr> current_section_lines := current_section_lines st1 @ [line] \<rparr>
                   else st1))"

definition scan_lines :: "Document \<Rightarrow> (nat \<times> string) list \<Rightarrow> scan_state \<Rightarrow> scan_state" where
  "scan_lines document nls st = fold (scan_step document) nls st"

text \<open>
  The sections before filtering: the loop over all lines, then ``Add last section''
  (the same test and the same construction; the counter is not read afterwards).
\<close>

definition raw_sections :: "Document \<Rightarrow> Section list" where
  "raw_sections document =
     sections (save_section document
       (scan_lines document (enumerate 0 (split_on newline (fullText document))) init_state))"

subsection \<open>Filtering, renumbering, hierarchy\<close>

definition filter_step :: "TableOfContents \<Rightarrow> Section list \<Rightarrow> Section \<Rightarrow> Section list" where
  "filter_step toc filtered_sections section =
     (if startPage toc \<le> pageNumber section \<and> pageNumber section \<le> endPage toc
      then (if length (content section) < 100
            then filtered_sections
            else filtered_sections @ [section])
      else filtered_sections @ [section])"

definition filter_toc_sections :: "Section list \<Rightarrow> TableOfContents \<Rightarrow> Section list" where
  "filter_toc_sections secs toc = foldl (filter_step toc) [] secs"

text \<open>\<open>for i, section in enumerate(sections): section.order = i\<close>.\<close>

definition renumber :: "Section list \<Rightarrow> Section list" where
  "renumber secs = map (\<lambda>(i, section). section\<lparr> order := i \<rparr>) (enumerate 0 secs)"

text \<open>
  \<open>_build_hierarchy\<close> walks the list with the dictionary \<open>parent_stack\<close> from a level to
  the last section seen at that level. It reads only the \<open>sectionId\<close> of a stored
  section, so the model stores the section as it is when it is put there.
\<close>

definition hierarchy_step ::
  "(nat \<rightharpoonup> Section) \<times> Section list \<Rightarrow> Section \<Rightarrow> (nat \<rightharpoonup> Section) \<times> Section list" where
  "hierarchy_step acc section =
     (let parent_stack = fst acc;
          done = snd acc;
          lvl = level section;
          section' = (case parent_stack (lvl - 1) of
                        Some parent \<Rightarrow>
                          if lvl > 1
                          then section\<lparr> parentSectionId := Some (sectionId parent) \<rparr>
                          else section
                      | None \<Rightarrow> section);
          parent_stack' = parent_stack(lvl \<mapsto> section')
      in ((\<lambda>l. if l > lvl then None else parent_stack' l), done @ [section']))"

definition build_hierarchy :: "Section list \<Rightarrow> Section list" where
  "build_hierarchy secs = snd (foldl hierarchy_step (Map.empty, []) secs)"

definition extract_sections :: "Document \<Rightarrow> TableOfContents option \<Rightarrow> Section list" where
  "extract_sections document toc =
     (let secs = raw_sections document;
          secs = (case toc of
                    Some t \<Rightarrow> filter_toc_sections secs t
                  | None \<Rightarrow> secs)
      in build_hierarchy (renumber secs))"

section \<open>Table of contents (toc_extractor.py)\<close>

text \<open>
  \<open>pattern.search(text)\<close> tries the pattern at every position from the left and
  returns the first match; \<open>re_search\<close> does so for a function that matches at one
  position. With \<open>re.MULTILINE\<close> a pattern that begins with \<open>^\<close> is tried only at
  the start of the text and after a newline; \<open>search_bol\<close> carries that as a flag.
\<close>

fun re_search :: "(string \<Rightarrow> 'a option) \<Rightarrow> string \<Rightarrow> 'a option" where
  "re_search m [] = m []"
| "re_search m (c # cs) =
     (case m (c # cs) of
        Some g \<Rightarrow> Some g
      | None \<Rightarrow> re_search m cs)"

fun search_bol :: "(string \<Rightarrow> 'a option) \<Rightarrow> bool \<Rightarrow> string \<Rightarrow> 'a option" where
  "search_bol m bol [] = (if bol then m [] else None)"
| "search_bol m bol (c # cs) =
     (case (if bol then m (c # cs) else None) of
        Some g \<Rightarrow> Some g
      | None \<Rightarrow> search_bol m (c = newline) cs)"

text \<open>\<open>PREMESSA[\s.]+(\d+)\<close>, ignoring case, at one position: the digits of group 1.\<close>

definition premessa_pattern :: "string \<Rightarrow> string option" where
  "premessa_pattern s =
     (case seq (lit_ci ''PREMESSA'') (many1 (\<lambda>c. is_space c \<or> dot c)) s of
        None \<Rightarrow> None
      | Some r \<Rightarrow> if takeWhile is_digit r = [] then None else Some (takeWhile is_digit r))"

text \<open>\<open>1\.1[^\d]*(\d+)\<close> at one position: the digits of group 1.\<close>

definition first_section_pattern :: "string \<Rightarrow> string option" where
  "first_section_pattern s =
     (case seq (lit ''1.1'') (many (\<lambda>c. \<not> is_digit c)) s of
        None \<Rightarrow> None
      | Some r \<Rightarrow> if takeWhile is_digit r = [] then None else Some (takeWhile is_digit r))"

text \<open>
  \<open>^\s*(INDICE|SOMMARIO)\s*$\<close>, ignoring case, at one line start: the text of group 1.
  After the word, \<open>\s*$\<close> succeeds when the run of whitespace reaches the end of the
  text, or holds a newline (the match then ends just before it).
\<close>

definition word_ci :: "string \<Rightarrow> string \<Rightarrow> (string \<times> string) option" where
  "word_ci w r = (case lit_ci w r of
                    None \<Rightarrow> None
                  | Some r' \<Rightarrow> Some (take (length w) r, r'))"

definition toc_header_pattern :: "string \<Rightarrow> string option" where
  "toc_header_pattern s =
     (let r = dropWhile is_space s
      in case (case word_ci ''INDICE'' r of
                 Some m \<Rightarrow> Some m
               | None \<Rightarrow> word_ci ''SOMMARIO'' r) of
           None \<Rightarrow> None
         | Some (g, r') \<Rightarrow>
             if dropWhile is_space r' = [] \<or> newline \<in> set (takeWhile is_space r')
             then Some g else None)"

text \<open>
  \<open>len(re.findall(r'^\s*\d+\.', text, re.MULTILINE))\<close>: \<open>entry_pattern\<close> is the length
  of a match at one line start, and \<open>count_entries\<close> counts the matches from the left,
  going on after the end of each (the first argument counts the characters of the
  current match still to pass).
\<close>

definition entry_pattern :: "string \<Rightarrow> nat option" where
  "entry_pattern s =
     (let r = dropWhile is_space s;
          r2 = dropWhile is_digit r
      in if takeWhile is_digit r \<noteq> [] \<and> (case r2 of [] \<Rightarrow> False | c # _ \<Rightarrow> dot c)
         then Some (length s - length r2 + 1) else None)"

fun count_entries :: "nat \<Rightarrow> bool \<Rightarrow> string \<Rightarrow> nat" where
  "count_entries k bol [] = 0"
| "count_entries (Suc k) bol (c # cs) = count_entries k (c = newline) cs"
| "count_entries 0 bol (c # cs) =
     (case (if bol then entry_pattern (c # cs) else None) of
        Some n \<Rightarrow> 1 + count_entries (n - 1) (c = newline) cs
      | None \<Rightarrow> count_entries 0 (c = newline) cs)"

text \<open>
  The opened PDF is the list of its page texts. \<open>doc[i]\<close> raises for \<open>i \<ge> len(doc)\<close>;
  a negative page number counts from the end, as the PDF library has it.
\<close>

definition get_page :: "string list \<Rightarrow> int \<Rightarrow> string option" where
  "get_page doc i =
     (let n = int (length doc)
      in if n = 0 \<or> n \<le> i then None else Some (doc ! nat (i mod n)))"

text \<open>
  The two detection methods. The result is \<open>None\<close> when an exception is raised (the
  \<open>except\<close> clause of \<open>extract_toc\<close> then returns \<open>None\<close>), \<open>Some None\<close> when the method
  finds no boundary, and \<open>Some (Some (toc_end_page, detection_method))\<close> otherwise.
\<close>

definition method_premessa :: "string list \<Rightarrow> string \<Rightarrow> (int \<times> string) option option" where
  "method_premessa doc page_2_text =
     (case re_search premessa_pattern page_2_text of
        None \<Rightarrow> Some None
      | Some g \<Rightarrow>
          (case py_int g of
             None \<Rightarrow> None
           | Some page \<Rightarrow>
               (let premessa_page = int page
                in if premessa_page \<le> int (length doc)
                   then (case get_page doc (premessa_page - 1) of
                           None \<Rightarrow> None
                         | Some actual_text \<Rightarrow>
                             if contains ''PREMESSA'' (take 500 (upper actual_text))
                             then Some (Some (premessa_page - 1, ''PREMESSA''))
                             else Some None)
                   else Some None)))"

definition method_first_section :: "string list \<Rightarrow> string \<Rightarrow> (int \<times> string) option option" where
  "method_first_section doc page_2_text =
     (case re_search first_section_pattern page_2_text of
        None \<Rightarrow> Some None
      | Some g \<Rightarrow>
          (case py_int g of
             None \<Rightarrow> None
           | Some page \<Rightarrow>
               (let first_section_page = int page
                in if first_section_page \<le> int (length doc)
                   then (case get_page doc (first_section_page - 1) of
                           None \<Rightarrow> None
                         | Some actual_text \<Rightarrow>
                             if contains ''1.1'' (take 200 actual_text)
                             then Some (Some (first_section_page - 1, ''FIRST_SECTION''))
                             else Some None)
                   else Some None)))"

definition toc_raw_text :: "string list \<Rightarrow> int \<Rightarrow> string" where
  "toc_raw_text doc toc_end_page =
     concat (map (\<lambda>page_num. if page_num < length doc then doc ! page_num @ [newline] else [])
                 [1..<nat toc_end_page])"

definition make_toc ::
  "Document \<Rightarrow> string list \<Rightarrow> string option \<Rightarrow> int \<times> string \<Rightarrow> TableOfContents" where
  "make_toc document doc header_match found =
     \<lparr> tocId = documentId document @ ''_TOC'',
       t_documentId = documentId document,
       rawText = strip (toc_raw_text doc (fst found)),
       startPage = 2,
       endPage = fst found,
       hasHeader = (header_match \<noteq> None),
       headerText = map_option upper header_match,
       entryCount = count_entries 0 True (toc_raw_text doc (fst found)),
       detectionMethod = snd found \<rparr>"

definition extract_toc :: "Document \<Rightarrow> string list \<Rightarrow> TableOfContents option" where
  "extract_toc document doc =
     (if doc_type document \<noteq> ''Circolare'' then None
      else if length doc < 2 then None
      else
        (let page_2_text = doc ! 1;
             header_match = search_bol toc_header_pattern True page_2_text
         in case method_premessa doc page_2_text of
              None \<Rightarrow> None
            | Some (Some found) \<Rightarrow> Some (make_toc document doc header_match found)
            | Some None \<Rightarrow>
                (case method_first_section doc page_2_text of
                   None \<Rightarrow> None
                 | Some (Some found) \<Rightarrow> Some (make_toc document doc header_match found)
                 | Some None \<Rightarrow> None)))"

section \<open>Chunking (chunker.py)\<close>

text \<open>The configuration of a \<open>Chunker\<close>: both sizes are Python integers, in tokens.\<close>

record Chunker =
  chunk_size :: int
  overlap :: int

definition chars_per_token :: int where
  "chars_per_token = 4"

definition create_chunk :: "Section \<Rightarrow> nat \<Rightarrow> string \<Rightarrow> int \<Rightarrow> Chunk" where
  "create_chunk section chunk_index text page_number =
     \<lparr> chunkId = sectionId section @ ''_CHK_'' @ str_nat chunk_index,
       c_documentId = s_documentId section,
       c_sectionId = sectionId section,
       c_content = text,
       chunkIndex = chunk_index,
       c_pageNumber = page_number,
       metadata = [(''section_number'', sectionNumber section),
                   (''section_type'', sectionType section)] \<rparr>"

text \<open>
  \<open>re.split(r'([.!?]+[\s\n]+)', text)\<close>: the pieces between the separators, with each
  separator (the capturing group) between them. \<open>separator\<close> is the match at one
  position; \<open>re_split\<close> has the piece that is being read and the number of characters
  of the last separator still to pass.
\<close>

definition separator :: "string \<Rightarrow> string option" where
  "separator s =
     (if takeWhile is_term s \<noteq> [] \<and> takeWhile is_space (dropWhile is_term s) \<noteq> []
      then Some (takeWhile is_term s @ takeWhile is_space (dropWhile is_term s))
      else None)"

fun re_split :: "nat \<Rightarrow> string \<Rightarrow> string \<Rightarrow> string list" where
  "re_split k piece [] = [piece]"
| "re_split (Suc k) piece (c # cs) = re_split k piece cs"
| "re_split 0 piece (c # cs) =
     (case separator (c # cs) of
        Some sep \<Rightarrow> piece # sep # re_split (length sep - 1) [] cs
      | None \<Rightarrow> re_split 0 (piece @ [c]) cs)"

text \<open>The loop \<open>for i in range(0, len(sentences) - 1, 2)\<close>.\<close>

fun recombine :: "string list \<Rightarrow> string list" where
  "recombine (a # b # rest) =
     (let sentence = strip (a @ b)
      in if sentence \<noteq> [] then sentence # recombine rest else recombine rest)"
| "recombine rest = []"

definition split_into_sentences :: "string \<Rightarrow> string list" where
  "split_into_sentences text =
     (let sentences = re_split 0 [] text;
          result = recombine sentences;
          result = (if length sentences mod 2 = 1 \<and> strip (last sentences) \<noteq> []
                    then result @ [strip (last sentences)] else result)
      in if result \<noteq> [] then result else [text])"

text \<open>The slice \<open>text[i:]\<close>, for any integer \<open>i\<close>.\<close>

definition slice_from :: "int \<Rightarrow> string \<Rightarrow> string" where
  "slice_from i text =
     (if i < 0 then drop (length text - nat (- i)) text else drop (nat i) text)"

text \<open>\<open>re.search(r'[.!?]\s+', text)\<close>: the text from the end of the first match on.\<close>

fun sentence_start :: "string \<Rightarrow> string option" where
  "sentence_start [] = None"
| "sentence_start (c # cs) =
     (if is_term c \<and> takeWhile is_space cs \<noteq> [] then Some (dropWhile is_space cs)
      else sentence_start cs)"

definition get_overlap_text :: "string \<Rightarrow> int \<Rightarrow> string" where
  "get_overlap_text text overlap_chars =
     (if int (length text) \<le> overlap_chars then text
      else (let overlap_text = slice_from (- overlap_chars) text
            in case sentence_start overlap_text of
                 Some rest \<Rightarrow> rest
               | None \<Rightarrow> overlap_text))"

text \<open>The loop over the sentences: the chunks so far, the running text, the next index.\<close>

type_synonym chunk_state = "Chunk list \<times> string \<times> nat"

definition chunk_step :: "Section \<Rightarrow> int \<Rightarrow> int \<Rightarrow> chunk_state \<Rightarrow> string \<Rightarrow> chunk_state" where
  "chunk_step section chunk_size_chars overlap_chars st sentence =
     (case st of (chunks, current_chunk_text, chunk_index) \<Rightarrow>
        if int (length current_chunk_text) + int (length sentence) > chunk_size_chars
           \<and> current_chunk_text \<noteq> []
        then (chunks @ [create_chunk section chunk_index (strip current_chunk_text)
                          (pageNumber section)],
              get_overlap_text current_chunk_text overlap_chars @ '' '' @ sentence,
              chunk_index + 1)
        else (chunks, current_chunk_text @ '' '' @ sentence, chunk_index))"

definition chunk_section :: "Chunker \<Rightarrow> Section \<Rightarrow> Chunk list" where
  "chunk_section self section =
     (if content section = [] \<or> length (content section) < 100
      then [create_chunk section 0 (content section) (pageNumber section)]
      else
        (let chunk_size_chars = chunk_size self * chars_per_token;
             overlap_chars = overlap self * chars_per_token;
             sentences = split_into_sentences (content section)
         in case foldl (chunk_step section chunk_size_chars overlap_chars) ([], [], 0) sentences of
              (chunks, current_chunk_text, chunk_index) \<Rightarrow>
                if strip current_chunk_text \<noteq> []
                then chunks @ [create_chunk section chunk_index (strip current_chunk_text)
                                 (pageNumber section)]
                else chunks))"

section \<open>Specification-side definitions and invariants\<close>

text \<open>
  The filter rule of the specification: a section is a table-of-contents entry when its
  estimated page lies in the range of the table of contents and its content is shorter
  than 100 characters.
\<close>

definition toc_entry :: "TableOfContents \<Rightarrow> Section \<Rightarrow> bool" where
  "toc_entry toc s =
     (startPage toc \<le> pageNumber s \<and> pageNumber s \<le> endPage toc
      \<and> length (content s) < 100)"

text \<open>
  The invariant of the line scan: the counter is the number of sections emitted so far,
  the section at position \<open>k\<close> carries the identifier built from \<open>k\<close>, has no parent
  yet and has content, and no buffered line is blank.
\<close>

definition scan_inv :: "Document \<Rightarrow> scan_state \<Rightarrow> bool" where
  "scan_inv d st \<longleftrightarrow>
     section_counter st = length (sections st)
     \<and> (\<forall>k<length (sections st).
          sectionId (sections st ! k) = section_id (documentId d) k
          \<and> parentSectionId (sections st ! k) = None
          \<and> content (sections st ! k) \<noteq> [])
     \<and> (\<forall>l\<in>set (current_section_lines st). strip l \<noteq> [])"

text \<open>
  A section is kept by the filter when no table of contents is given, or when it is not a
  table-of-contents entry.
\<close>

definition kept :: "TableOfContents option \<Rightarrow> Section \<Rightarrow> bool" where
  "kept toc s = (case toc of None \<Rightarrow> True | Some t \<Rightarrow> \<not> toc_entry t s)"

text \<open>
  The invariant of \<open>_build_hierarchy\<close>, after the prefix \<open>pre\<close> of the input: every entry
  of \<open>parent_stack\<close> at level \<open>l\<close> is a section of the prefix with level \<open>l\<close>, and every
  parent identifier set so far names an earlier section of the prefix, one level up.
\<close>

definition hier_inv :: "(nat \<rightharpoonup> Section) \<Rightarrow> Section list \<Rightarrow> Section list \<Rightarrow> bool" where
  "hier_inv m done pre \<longleftrightarrow>
     length done = length pre
     \<and> (\<forall>l s. m l = Some s \<longrightarrow>
          (\<exists>i<length pre. sectionId (pre ! i) = sectionId s \<and> level (pre ! i) = l))
     \<and> (\<forall>n<length pre. \<forall>pid. parentSectionId (done ! n) = Some pid \<longrightarrow>
          (\<exists>i<n. sectionId (pre ! i) = pid \<and> level (pre ! i) + 1 = level (pre ! n)))"

text \<open>Chunks whose content is non-empty and equal to its own trimmed form.\<close>

definition good_chunks :: "Chunk list \<Rightarrow> bool" where
  "good_chunks cs = (\<forall>c\<in>set cs. c_content c \<noteq> [] \<and> strip (c_content c) = c_content c)"

text \<open>
  The overlap fragment as the specification words it: the last \<open>n\<close> characters of the previous
  buffer, or the whole buffer if it is shorter, cut forward to just after the first
  sentence boundary found in that slice, or the slice itself if there is none.
\<close>

definition spec_fragment :: "string \<Rightarrow> nat \<Rightarrow> string" where
  "spec_fragment buffer n =
     (let slice = drop (length buffer - n) buffer
      in case sentence_start slice of
           Some rest \<Rightarrow> rest
         | None \<Rightarrow> slice)"

text \<open>
  The overlap fragment as the code takes it for a positive \<open>n\<close>: a buffer of at most
  \<open>n\<close> characters is taken whole and is not cut; only a longer buffer is sliced and cut
  forward.
\<close>

definition seed_fragment :: "string \<Rightarrow> nat \<Rightarrow> string" where
  "seed_fragment buffer n =
     (if length buffer \<le> n then buffer
      else (let slice = drop (length buffer - n) buffer
            in case sentence_start slice of
                 Some rest \<Rightarrow> rest
               | None \<Rightarrow> slice))"

text \<open>
  The running texts of the chunk loop, from the sentences: a sentence that would take the
  running text past the budget closes it, when it is not empty, and the next running text
  is the overlap fragment of the closed one, a space and that sentence; any other
  sentence is appended after a space. The list holds every closed text, then the text
  left at the end.
\<close>

fun buffers :: "int \<Rightarrow> nat \<Rightarrow> string \<Rightarrow> string list \<Rightarrow> string list" where
  "buffers csz n cur [] = [cur]"
| "buffers csz n cur (x # xs) =
     (if int (length cur) + int (length x) > csz \<and> cur \<noteq> []
      then cur # buffers csz n (seed_fragment cur n @ '' '' @ x) xs
      else buffers csz n (cur @ '' '' @ x) xs)"

text \<open>
  The heading blocks of a text: a heading line is a line that is not blank and that
  \<open>_is_section_header\<close> accepts once trimmed; its block is the heading line with the lines
  strictly between it and the next heading line, or the end of the input. Lines before
  the first heading belong to no block.
\<close>

definition is_heading :: "string \<Rightarrow> bool" where
  "is_heading l = (strip l \<noteq> [] \<and> is_section_header (strip l) \<noteq> None)"

definition non_blank :: "string list \<Rightarrow> string list" where
  "non_blank ls = filter (\<lambda>l. strip l \<noteq> []) ls"

fun blocks :: "string list \<Rightarrow> (string \<times> string list) list" where
  "blocks [] = []"
| "blocks (l # ls) =
     (if is_heading l then (l, takeWhile (\<lambda>x. \<not> is_heading x) ls) # blocks ls
      else blocks ls)"

text \<open>
  What the blocks give: a block with no non-blank line gives nothing; any other block
  gives the title (the trimmed heading line, cut to 200 characters) and the content (the
  trimmed newline-join of its non-blank lines).
\<close>

definition emitted :: "(string \<times> string list) list \<Rightarrow> (string \<times> string) list" where
  "emitted bs =
     map (\<lambda>b. (take 200 (strip (fst b)), strip (join_lines (non_blank (snd b)))))
         (filter (\<lambda>b. non_blank (snd b) \<noteq> []) bs)"

definition title_content :: "Section \<Rightarrow> string \<times> string" where
  "title_content s = (title s, content s)"

text \<open>
  What the open section of a scan state gives once the lines \<open>body\<close> have been read
  after it.
\<close>

definition open_part :: "scan_state \<Rightarrow> string list \<Rightarrow> (string \<times> string) list" where
  "open_part st body =
     (case current_section st of
        None \<Rightarrow> []
      | Some (h, t) \<Rightarrow>
          if h \<noteq> [] \<and> current_section_lines st @ non_blank body \<noteq> []
          then [(take 200 h, strip (join_lines (current_section_lines st @ non_blank body)))]
          else [])"

section \<open>Example inputs\<close>

text \<open>
  Two headings on page 1, the first with five characters of content and the second with
  a hundred, and a table of contents that covers page 1.
\<close>

definition doc_two_sections :: Document where
  "doc_two_sections =
     \<lparr> documentId = ''D'', doc_type = ''Circolare'', pageCount = 3,
       fullText = ''PREMESSA\<newline>breve\<newline>OGGETTO\<newline>'' @ replicate 100 (CHR ''x'') \<rparr>"

definition toc_page_one :: TableOfContents where
  "toc_page_one =
     \<lparr> tocId = ''D_TOC'', t_documentId = ''D'', rawText = [], startPage = 1, endPage = 1,
       hasHeader = False, headerText = None, entryCount = 0, detectionMethod = ''PREMESSA'' \<rparr>"

text \<open>A first-level heading followed by a second-level heading.\<close>

definition doc_nested :: Document where
  "doc_nested =
     \<lparr> documentId = ''D'', doc_type = ''Circolare'', pageCount = 1,
       fullText = ''OGGETTO\<newline>abc\<newline>1.1 Xyz\<newline>text'' \<rparr>"

text \<open>A heading followed by two lines of text with a blank line between them.\<close>

definition doc_blank_line :: Document where
  "doc_blank_line =
     \<lparr> documentId = ''D'', doc_type = ''Circolare'', pageCount = 1,
       fullText = ''OGGETTO\<newline>a\<newline>\<newline>b'' \<rparr>"

text \<open>A section of 90 characters, an empty section, and a section of three sentences.\<close>

definition short_section :: Section where
  "short_section =
     \<lparr> sectionId = ''D_SEC_0'', s_documentId = ''D'', sectionNumber = ''OGGETTO'',
       title = ''OGGETTO'', content = replicate 90 (CHR ''x''), sectionType = ''named'',
       level = 1, pageNumber = 1, order = 0, parentSectionId = None \<rparr>"

definition empty_section :: Section where
  "empty_section =
     \<lparr> sectionId = ''D_SEC_0'', s_documentId = ''D'', sectionNumber = ''OGGETTO'',
       title = ''OGGETTO'', content = [], sectionType = ''named'',
       level = 1, pageNumber = 1, order = 0, parentSectionId = None \<rparr>"

definition sentence_one :: string where
  "sentence_one = ''A'' @ replicate 28 (CHR ''a'') @ ''.''"

definition sentence_two :: string where
  "sentence_two = ''B'' @ replicate 28 (CHR ''b'') @ ''.''"

definition sentence_three :: string where
  "sentence_three = ''C'' @ replicate 58 (CHR ''c'') @ ''.''"

definition long_section :: Section where
  "long_section =
     \<lparr> sectionId = ''D_SEC_0'', s_documentId = ''D'', sectionNumber = ''OGGETTO'',
       title = ''OGGETTO'',
       content = sentence_one @ '' '' @ sentence_two @ '' '' @ sentence_three,
       sectionType = ''named'',
       level = 1, pageNumber = 1, order = 0, parentSectionId = None \<rparr>"

text \<open>
  A Circolare of three pages whose table of contents and whose PREMESSA both begin on
  page 2: the table lists the PREMESSA at page 2.
\<close>

definition circolare :: Document where
  "circolare =
     \<lparr> documentId = ''C1'', doc_type = ''Circolare'', pageCount = 3, fullText = [] \<rparr>"

definition pages_toc_and_premessa :: "string list" where
  "pages_toc_and_premessa =
     [''CIRCOLARE N. 1'',
      ''INDICE\<newline>Premessa ..... 2\<newline>1. Ambito ..... 3\<newline>PREMESSA\<newline>Testo'',
      ''1. Ambito\<newline>Testo'']"

text \<open>
  Three headings: the first is followed by a whitespace-only line, the second by a line
  of text, the third by the end of the input.
\<close>

definition doc_bare_headings :: Document where
  "doc_bare_headings =
     \<lparr> documentId = ''D'', doc_type = ''Circolare'', pageCount = 1,
       fullText = ''PREMESSA\<newline>   \<newline>OGGETTO\<newline>abc\<newline>QUESITO'' \<rparr>"

section \<open>Facts about the text primitives\<close>

lemma dropWhile_fixed: "xs = [] \<or> \<not> P (hd xs) \<Longrightarrow> dropWhile P xs = xs"
  by (cases xs) auto

lemma lstrip_nonempty: "lstrip s \<noteq> [] \<longleftrightarrow> (\<exists>c\<in>set s. \<not> is_space c)"
  by (simp add: lstrip_def dropWhile_eq_Nil_conv)

lemma rstrip_nonempty: "rstrip s \<noteq> [] \<longleftrightarrow> (\<exists>c\<in>set s. \<not> is_space c)"
  by (simp add: rstrip_def dropWhile_eq_Nil_conv)

lemma lstrip_keeps_char: "(\<exists>c\<in>set (lstrip s). \<not> is_space c) \<longleftrightarrow> (\<exists>c\<in>set s. \<not> is_space c)"
proof
  assume "\<exists>c\<in>set (lstrip s). \<not> is_space c"
  then show "\<exists>c\<in>set s. \<not> is_space c"
    unfolding lstrip_def by (meson set_dropWhileD)
next
  assume "\<exists>c\<in>set s. \<not> is_space c"
  then have ne: "dropWhile is_space s \<noteq> []" by (simp add: dropWhile_eq_Nil_conv)
  then have "\<not> is_space (hd (dropWhile is_space s))" by (rule hd_dropWhile)
  moreover have "hd (dropWhile is_space s) \<in> set (dropWhile is_space s)" using ne by simp
  ultimately show "\<exists>c\<in>set (lstrip s). \<not> is_space c" unfolding lstrip_def by blast
qed

lemma strip_nonempty: "strip s \<noteq> [] \<longleftrightarrow> (\<exists>c\<in>set s. \<not> is_space c)"
  by (simp add: strip_def rstrip_nonempty lstrip_keeps_char del: Set.bex_simps)

lemma strip_empty: "strip s = [] \<longleftrightarrow> (\<forall>c\<in>set s. is_space c)"
  using strip_nonempty[of s] by blast

lemma rstrip_take: "rstrip s = take (length s - length (takeWhile is_space (rev s))) s"
proof -
  have "rstrip s = rev (drop (length (takeWhile is_space (rev s))) (rev s))"
    by (simp add: rstrip_def dropWhile_eq_drop)
  then show ?thesis by (simp add: rev_drop)
qed

lemma rstrip_idem: "rstrip (rstrip s) = rstrip s"
  by (simp add: rstrip_def)

lemma rstrip_last: "rstrip s \<noteq> [] \<Longrightarrow> \<not> is_space (last (rstrip s))"
proof -
  assume "rstrip s \<noteq> []"
  then have ne: "dropWhile is_space (rev s) \<noteq> []" by (simp add: rstrip_def)
  then have "\<not> is_space (hd (dropWhile is_space (rev s)))" by (rule hd_dropWhile)
  then show ?thesis using ne by (simp add: rstrip_def last_rev)
qed

lemma rstrip_hd: "rstrip s \<noteq> [] \<Longrightarrow> hd (rstrip s) = hd s"
  by (metis hd_take rstrip_take take_eq_Nil gr0I)

lemma strip_hd: "strip s \<noteq> [] \<Longrightarrow> \<not> is_space (hd (strip s))"
proof -
  assume ne: "strip s \<noteq> []"
  then have "lstrip s \<noteq> []" by (auto simp: strip_def rstrip_def)
  then have "\<not> is_space (hd (lstrip s))" unfolding lstrip_def by (rule hd_dropWhile)
  then show ?thesis using ne rstrip_hd[of "lstrip s"] by (simp add: strip_def)
qed

lemma strip_last: "strip s \<noteq> [] \<Longrightarrow> \<not> is_space (last (strip s))"
  unfolding strip_def by (rule rstrip_last)

lemma strip_idem: "strip (strip s) = strip s"
proof -
  have "lstrip (strip s) = strip s"
    unfolding lstrip_def using strip_hd[of s] by (intro dropWhile_fixed) blast
  then show ?thesis by (simp add: strip_def[of "strip s"]) (simp add: strip_def rstrip_idem)
qed

lemma strip_fixed: "s = [] \<or> (\<not> is_space (hd s) \<and> \<not> is_space (last s)) \<Longrightarrow> strip s = s"
proof -
  assume a: "s = [] \<or> (\<not> is_space (hd s) \<and> \<not> is_space (last s))"
  then have l: "lstrip s = s" unfolding lstrip_def by (intro dropWhile_fixed) blast
  have "dropWhile is_space (rev s) = rev s"
    using a by (intro dropWhile_fixed) (auto simp: hd_rev)
  then show ?thesis by (simp add: strip_def l rstrip_def)
qed

declare str_nat.simps [simp del]

lemma str_nat_small: "n < 10 \<Longrightarrow> str_nat n = [char_of (48 + n)]"
  by (simp add: str_nat.simps)

lemma str_nat_big: "\<not> n < 10 \<Longrightarrow> str_nat n = str_nat (n div 10) @ [char_of (48 + n mod 10)]"
  by (subst str_nat.simps) simp

lemma str_nat_nonempty: "str_nat n \<noteq> []"
  by (cases "n < 10") (simp_all add: str_nat_small str_nat_big)

lemma digit_char_inj: "a < 10 \<Longrightarrow> b < 10 \<Longrightarrow> char_of (48 + a :: nat) = char_of (48 + b) \<Longrightarrow> a = b"
proof -
  assume a: "a < 10" and b: "b < 10" and e: "char_of (48 + a :: nat) = char_of (48 + b)"
  have "of_char (char_of (48 + a :: nat)) = (of_char (char_of (48 + b)) :: nat)" using e by simp
  then have "(48 + a) mod 256 = (48 + b) mod 256" by (simp add: of_char_of)
  then show ?thesis using a b by simp
qed

lemma str_nat_inj: "str_nat m = str_nat n \<Longrightarrow> m = n"
proof (induction m arbitrary: n rule: str_nat.induct)
  case (1 m)
  show ?case
  proof (cases "m < 10")
    case True
    show ?thesis
    proof (cases "n < 10")
      case n: True
      then show ?thesis using True "1.prems" digit_char_inj by (simp add: str_nat_small)
    next
      case n: False
      then show ?thesis using True "1.prems" str_nat_nonempty[of "n div 10"]
        by (simp add: str_nat_small str_nat_big)
    qed
  next
    case False
    show ?thesis
    proof (cases "n < 10")
      case n: True
      then show ?thesis using False "1.prems" str_nat_nonempty[of "m div 10"]
        by (simp add: str_nat_small str_nat_big)
    next
      case n: False
      from False n "1.prems" have e: "str_nat (m div 10) = str_nat (n div 10)"
        and d: "char_of (48 + m mod 10) = char_of (48 + n mod 10)"
        by (simp_all add: str_nat_big)
      from "1.IH"[OF False e] have "m div 10 = n div 10" .
      moreover have "m mod 10 = n mod 10" using d digit_char_inj[of "m mod 10" "n mod 10"] by simp
      ultimately show ?thesis by (metis div_mult_mod_eq)
    qed
  qed
qed

lemma section_id_inj: "section_id d m = section_id d n \<Longrightarrow> m = n"
  by (simp add: section_id_def str_nat_inj)

section \<open>Renumbering and hierarchy keep the list in shape\<close>

lemma filter_toc_foldl:
  "foldl (filter_step toc) acc secs = acc @ filter (\<lambda>s. \<not> toc_entry toc s) secs"
  by (induction secs arbitrary: acc) (auto simp: filter_step_def toc_entry_def)

lemma filter_toc_sections_eq:
  "filter_toc_sections secs toc = filter (\<lambda>s. \<not> toc_entry toc s) secs"
  by (simp add: filter_toc_sections_def filter_toc_foldl)

lemma length_renumber: "length (renumber secs) = length secs"
  by (simp add: renumber_def)

lemma renumber_nth: "i < length secs \<Longrightarrow> renumber secs ! i = (secs ! i)\<lparr> order := i \<rparr>"
  by (simp add: renumber_def nth_enumerate_eq)

lemma map_order_renumber: "map order (renumber secs) = [0..<length secs]"
  by (rule nth_equalityI) (simp_all add: length_renumber renumber_nth)

lemma hierarchy_step_snd:
  "\<exists>p. snd (hierarchy_step (m, acc) s) = acc @ [s\<lparr> parentSectionId := p \<rparr>]"
proof (cases "m (level s - 1)")
  case None
  then have "snd (hierarchy_step (m, acc) s) = acc @ [s\<lparr> parentSectionId := parentSectionId s \<rparr>]"
    by (simp add: hierarchy_step_def Let_def)
  then show ?thesis by blast
next
  case (Some a)
  then have "snd (hierarchy_step (m, acc) s) =
      acc @ [s\<lparr> parentSectionId :=
                 (if level s > 1 then Some (sectionId a) else parentSectionId s) \<rparr>]"
    by (simp add: hierarchy_step_def Let_def)
  then show ?thesis by blast
qed

lemma hierarchy_foldl_shape:
  assumes "list_all2 (\<lambda>a b. \<exists>p. b = a\<lparr> parentSectionId := p \<rparr>) acc0 acc"
  shows "list_all2 (\<lambda>a b. \<exists>p. b = a\<lparr> parentSectionId := p \<rparr>) (acc0 @ secs)
           (snd (foldl hierarchy_step (m, acc) secs))"
  using assms
proof (induction secs arbitrary: m acc acc0)
  case Nil
  then show ?case by simp
next
  case (Cons s secs)
  obtain p where p: "snd (hierarchy_step (m, acc) s) = acc @ [s\<lparr> parentSectionId := p \<rparr>]"
    using hierarchy_step_snd by blast
  obtain m' where st: "hierarchy_step (m, acc) s = (m', acc @ [s\<lparr> parentSectionId := p \<rparr>])"
    using p by (cases "hierarchy_step (m, acc) s") simp
  have "list_all2 (\<lambda>a b. \<exists>p. b = a\<lparr> parentSectionId := p \<rparr>) (acc0 @ [s])
          (acc @ [s\<lparr> parentSectionId := p \<rparr>])"
    using Cons.prems by (auto intro!: list_all2_appendI)
  from Cons.IH[OF this, of m'] show ?case by (simp add: st)
qed

lemma build_hierarchy_shape:
  "list_all2 (\<lambda>a b. \<exists>p. b = a\<lparr> parentSectionId := p \<rparr>) secs (build_hierarchy secs)"
  unfolding build_hierarchy_def
  using hierarchy_foldl_shape[of "[]" "[]" secs Map.empty] by simp

lemma build_hierarchy_length: "length (build_hierarchy secs) = length secs"
  using build_hierarchy_shape[of secs] by (simp add: list_all2_lengthD)

lemma build_hierarchy_nth:
  "i < length secs \<Longrightarrow> \<exists>p. build_hierarchy secs ! i = (secs ! i)\<lparr> parentSectionId := p \<rparr>"
  using build_hierarchy_shape[of secs] by (auto simp: list_all2_conv_all_nth)

lemma map_order_build_hierarchy: "map order (build_hierarchy secs) = map order secs"
proof (rule nth_equalityI)
  show "length (map order (build_hierarchy secs)) = length (map order secs)"
    by (simp add: build_hierarchy_length)
next
  fix i assume "i < length (map order (build_hierarchy secs))"
  then have i: "i < length secs" by (simp add: build_hierarchy_length)
  then obtain p where "build_hierarchy secs ! i = (secs ! i)\<lparr> parentSectionId := p \<rparr>"
    using build_hierarchy_nth by blast
  then show "map order (build_hierarchy secs) ! i = map order secs ! i"
    using i by (simp add: build_hierarchy_length)
qed

section \<open>Invariant of the line scan\<close>

lemma join_lines_chars: "l \<in> set ls \<Longrightarrow> set l \<subseteq> set (join_lines ls)"
  by (induction ls rule: join_lines.induct) auto

lemma strip_join_nonempty:
  assumes "ls \<noteq> []" and "\<forall>l\<in>set ls. strip l \<noteq> []"
  shows "strip (join_lines ls) \<noteq> []"
proof -
  from assms(1) obtain l where l: "l \<in> set ls" by (cases ls) auto
  with assms(2) obtain c where "c \<in> set l" "\<not> is_space c" by (auto simp: strip_nonempty)
  with join_lines_chars[OF l] show ?thesis by (auto simp: strip_nonempty)
qed

lemma scan_inv_init: "scan_inv d init_state"
  by (simp add: scan_inv_def init_state_def)

lemma scan_inv_save: "scan_inv d st \<Longrightarrow> scan_inv d (save_section d st)"
  by (auto simp: scan_inv_def save_section_def create_section_def nth_append
      strip_join_nonempty less_Suc_eq split: option.splits)

lemma save_section_lines: "current_section_lines (save_section d st) = current_section_lines st"
  by (auto simp: save_section_def split: option.splits)

lemma scan_inv_step: "scan_inv d st \<Longrightarrow> scan_inv d (scan_step d nl st)"
proof -
  assume inv: "scan_inv d st"
  let ?st1 = "st\<lparr> current_page := int (fst nl div lines_per_page) + 1 \<rparr>"
  have inv1: "scan_inv d ?st1" using inv by (simp add: scan_inv_def)
  have s: "scan_inv d (save_section d ?st1)" by (rule scan_inv_save[OF inv1])
  show ?thesis
  proof (cases "strip (snd nl) = []")
    case True
    then show ?thesis using inv1 by (simp add: scan_step_def Let_def)
  next
    case False
    show ?thesis
    proof (cases "is_section_header (strip (snd nl))")
      case None
      then show ?thesis using False inv1
        by (auto simp: scan_step_def Let_def scan_inv_def)
    next
      case (Some a)
      obtain t l where a: "a = (t, l)" by (cases a)
      have "scan_inv d ((save_section d ?st1)\<lparr> current_section := Some (strip (snd nl), t),
                          current_section_lines := [] \<rparr>)"
        using s by (simp add: scan_inv_def)
      then show ?thesis using False Some a by (simp add: scan_step_def Let_def)
    qed
  qed
qed

lemma scan_inv_lines: "scan_inv d st \<Longrightarrow> scan_inv d (scan_lines d nls st)"
  unfolding scan_lines_def by (induction nls arbitrary: st) (simp_all add: scan_inv_step)

lemma raw_sections_inv:
  "k < length (raw_sections d) \<Longrightarrow>
     sectionId (raw_sections d ! k) = section_id (documentId d) k
     \<and> parentSectionId (raw_sections d ! k) = None
     \<and> content (raw_sections d ! k) \<noteq> []"
  using scan_inv_save[OF scan_inv_lines[OF scan_inv_init]]
  unfolding raw_sections_def scan_inv_def by blast

lemma extract_sections_filter:
  "\<exists>P. extract_sections d toc = build_hierarchy (renumber (filter P (raw_sections d)))
       \<and> (\<forall>t. toc = Some t \<longrightarrow> P = (\<lambda>s. \<not> toc_entry t s))
       \<and> (toc = None \<longrightarrow> P = (\<lambda>s. True))"
  by (cases toc) (simp_all add: extract_sections_def filter_toc_sections_eq)

lemma result_nth:
  assumes "i < length (filter P raw)"
  shows "\<exists>p. build_hierarchy (renumber (filter P raw)) ! i
            = (filter P raw ! i)\<lparr> order := i, parentSectionId := p \<rparr>"
proof -
  from assms have "i < length (renumber (filter P raw))" by (simp add: length_renumber)
  from build_hierarchy_nth[OF this] obtain p where
    "build_hierarchy (renumber (filter P raw)) ! i
       = (renumber (filter P raw) ! i)\<lparr> parentSectionId := p \<rparr>" by blast
  then show ?thesis using assms by (auto simp: renumber_nth)
qed

lemma result_length:
  "length (build_hierarchy (renumber (filter P raw))) = length (filter P raw)"
  by (simp add: build_hierarchy_length length_renumber)

section \<open>Section identifiers\<close>

lemma extract_sections_kept:
  "extract_sections d toc = build_hierarchy (renumber (filter (kept toc) (raw_sections d)))"
proof (cases toc)
  case None
  then show ?thesis by (simp add: extract_sections_def kept_def)
next
  case (Some t)
  have "kept (Some t) = (\<lambda>s. \<not> toc_entry t s)" by (rule ext) (simp add: kept_def)
  then show ?thesis using Some by (simp add: extract_sections_def filter_toc_sections_eq)
qed

lemma filter_nth_origin:
  "i < length (filter P xs) \<Longrightarrow>
     \<exists>j<length xs. filter P xs ! i = xs ! j \<and> P (xs ! j) \<and> i = length (filter P (take j xs))"
proof (induction xs arbitrary: i rule: rev_induct)
  case Nil
  then show ?case by simp
next
  case (snoc x xs)
  show ?case
  proof (cases "i < length (filter P xs)")
    case True
    from snoc.IH[OF True] obtain j where j: "j < length xs" "filter P xs ! i = xs ! j"
      "P (xs ! j)" "i = length (filter P (take j xs))" by blast
    have "filter P (xs @ [x]) ! i = (xs @ [x]) ! j" using True j by (simp add: nth_append)
    moreover have "P ((xs @ [x]) ! j)" using j by (simp add: nth_append)
    moreover have "i = length (filter P (take j (xs @ [x])))" using j by simp
    ultimately show ?thesis using j(1) by (intro exI[of _ j]) simp
  next
    case False
    with snoc.prems have px: "P x" and i: "i = length (filter P xs)"
      by (auto split: if_splits)
    show ?thesis using px i by (intro exI[of _ "length xs"]) (simp add: nth_append)
  qed
qed

lemma filter_take_less:
  assumes "j < length xs" "k < j" "\<not> P (xs ! k)"
  shows "length (filter P (take j xs)) < j"
proof -
  have "xs ! k \<in> set (take j xs)" using assms(1,2) by (metis in_set_conv_nth length_take min.absorb2 nth_take less_imp_le)
  from length_filter_less[of "xs ! k" "take j xs" P, OF this assms(3)]
  show ?thesis using assms(1) by simp
qed

lemma raw_section_ids:
  "map sectionId (raw_sections d) = map (section_id (documentId d)) [0..<length (raw_sections d)]"
  by (rule nth_equalityI) (simp_all add: raw_sections_inv)

lemma distinct_raw_ids: "distinct (map sectionId (raw_sections d))"
  unfolding raw_section_ids
  by (simp add: distinct_map inj_on_def) (use section_id_inj in blast)

lemma result_ids:
  "map sectionId (build_hierarchy (renumber xs)) = map sectionId xs"
proof (rule nth_equalityI)
  show "length (map sectionId (build_hierarchy (renumber xs))) = length (map sectionId xs)"
    by (simp add: build_hierarchy_length length_renumber)
next
  fix i assume "i < length (map sectionId (build_hierarchy (renumber xs)))"
  then have i: "i < length xs" by (simp add: build_hierarchy_length length_renumber)
  then have "i < length (filter (\<lambda>_. True) xs)" by simp
  from result_nth[OF this] obtain p where
    "build_hierarchy (renumber xs) ! i = (xs ! i)\<lparr> order := i, parentSectionId := p \<rparr>" by auto
  then show "map sectionId (build_hierarchy (renumber xs)) ! i = map sectionId xs ! i"
    using i by (simp add: build_hierarchy_length length_renumber)
qed

lemma distinct_result_ids: "distinct (map sectionId (extract_sections d toc))"
  unfolding extract_sections_kept result_ids
  by (rule distinct_map_filter) (rule distinct_raw_ids)

section \<open>Invariant of the hierarchy pass\<close>

lemma hier_inv_init: "hier_inv Map.empty [] []"
  by (simp add: hier_inv_def)

lemma hier_inv_step:
  assumes inv: "hier_inv m done pre" and none: "parentSectionId s = None"
  shows "hier_inv (fst (hierarchy_step (m, done) s)) (snd (hierarchy_step (m, done) s)) (pre @ [s])"
proof -
  define s' where "s' = (case m (level s - 1) of
                        Some parent \<Rightarrow>
                          if level s > 1
                          then s\<lparr> parentSectionId := Some (sectionId parent) \<rparr>
                          else s
                      | None \<Rightarrow> s)"
  have step: "hierarchy_step (m, done) s =
        ((\<lambda>l. if l > level s then None else (m(level s \<mapsto> s')) l), done @ [s'])"
    unfolding s'_def by (simp add: hierarchy_step_def Let_def del: One_nat_def)
  have id: "sectionId s' = sectionId s" and lv: "level s' = level s"
    by (auto simp: s'_def split: option.splits)
  from inv have len: "length done = length pre"
    and st: "\<And>l x. m l = Some x \<Longrightarrow>
          \<exists>i<length pre. sectionId (pre ! i) = sectionId x \<and> level (pre ! i) = l"
    and par: "\<And>n pid. n < length pre \<Longrightarrow> parentSectionId (done ! n) = Some pid \<Longrightarrow>
          \<exists>i<n. sectionId (pre ! i) = pid \<and> level (pre ! i) + 1 = level (pre ! n)"
    unfolding hier_inv_def by blast+
  have a: "\<exists>i<length (pre @ [s]). sectionId ((pre @ [s]) ! i) = sectionId x
               \<and> level ((pre @ [s]) ! i) = l"
    if "(if l > level s then None else (m(level s \<mapsto> s')) l) = Some x" for l x
  proof (cases "l = level s")
    case True
    with that have "x = s'" by simp
    then show ?thesis using True id by (intro exI[of _ "length pre"]) simp
  next
    case False
    with that have "m l = Some x" by (simp split: if_splits)
    from st[OF this] obtain i where "i < length pre" "sectionId (pre ! i) = sectionId x"
      "level (pre ! i) = l" by blast
    then show ?thesis by (intro exI[of _ i]) (simp add: nth_append)
  qed
  have b: "\<exists>i<n. sectionId ((pre @ [s]) ! i) = pid
               \<and> level ((pre @ [s]) ! i) + 1 = level ((pre @ [s]) ! n)"
    if n: "n < length (pre @ [s])" and p: "parentSectionId ((done @ [s']) ! n) = Some pid" for n pid
  proof (cases "n < length pre")
    case True
    with p len have "parentSectionId (done ! n) = Some pid" by (simp add: nth_append)
    from par[OF True this] obtain i where "i < n" "sectionId (pre ! i) = pid"
      "level (pre ! i) + 1 = level (pre ! n)" by blast
    then show ?thesis using True by (intro exI[of _ i]) (simp add: nth_append)
  next
    case False
    with n have n': "n = length pre" by simp
    with p len have ps: "parentSectionId s' = Some pid" by (simp add: nth_append)
    with none obtain parent where m: "m (level s - 1) = Some parent" and l1: "level s > 1"
      and pid: "pid = sectionId parent"
      by (auto simp: s'_def split: option.splits if_splits)
    from st[OF m] obtain i where "i < length pre" "sectionId (pre ! i) = sectionId parent"
      "level (pre ! i) = level s - 1" by blast
    then show ?thesis using n' pid l1 by (intro exI[of _ i]) (simp add: nth_append)
  qed
  show ?thesis unfolding step hier_inv_def fst_conv snd_conv
    using len a b by (intro conjI allI impI) simp_all
qed

lemma hier_inv_foldl:
  assumes "hier_inv m done pre" and "\<forall>s\<in>set secs. parentSectionId s = None"
  shows "hier_inv (fst (foldl hierarchy_step (m, done) secs))
           (snd (foldl hierarchy_step (m, done) secs)) (pre @ secs)"
  using assms
proof (induction secs arbitrary: m "done" pre)
  case Nil
  then show ?case by simp
next
  case (Cons s secs)
  have "hier_inv (fst (hierarchy_step (m, done) s)) (snd (hierarchy_step (m, done) s)) (pre @ [s])"
    using Cons.prems by (intro hier_inv_step) simp_all
  from Cons.IH[OF this] Cons.prems(2) show ?case by simp
qed

lemma build_hierarchy_parent:
  assumes "\<forall>s\<in>set secs. parentSectionId s = None"
    and "n < length secs" and "parentSectionId (build_hierarchy secs ! n) = Some pid"
  shows "\<exists>i<n. sectionId (secs ! i) = pid \<and> level (secs ! i) + 1 = level (secs ! n)"
  using hier_inv_foldl[OF hier_inv_init assms(1)] assms(2,3)
  unfolding build_hierarchy_def hier_inv_def by simp

lemma renumbered_no_parent:
  "\<forall>s\<in>set (renumber (filter P (raw_sections d))). parentSectionId s = None"
proof
  fix s assume "s \<in> set (renumber (filter P (raw_sections d)))"
  then obtain i where i: "i < length (filter P (raw_sections d))"
    and s: "s = renumber (filter P (raw_sections d)) ! i"
    by (metis in_set_conv_nth length_renumber)
  have "filter P (raw_sections d) ! i \<in> set (raw_sections d)" using nth_mem[OF i] by simp
  then obtain k where "k < length (raw_sections d)"
    "filter P (raw_sections d) ! i = raw_sections d ! k" by (metis in_set_conv_nth)
  then show "parentSectionId s = None"
    using raw_sections_inv[of k d] s i by (simp add: renumber_nth)
qed

section \<open>The lines between two headings\<close>

lemma is_section_header_empty: "is_section_header [] = None"
  by code_simp

lemma scan_lines_append:
  "scan_lines d (enumerate n (xs @ ys)) st
     = scan_lines d (enumerate (n + length xs) ys) (scan_lines d (enumerate n xs) st)"
  by (simp add: scan_lines_def enumerate_append_eq)

lemma scan_lines_Cons:
  "scan_lines d (nl # nls) st = scan_lines d nls (scan_step d nl st)"
  by (simp add: scan_lines_def)

lemma scan_lines_Nil: "scan_lines d [] st = st"
  by (simp add: scan_lines_def)

text \<open>Lines that are blank or are no heading leave the open heading and the sections alone.\<close>

lemma scan_body:
  assumes "\<forall>l\<in>set body. strip l = [] \<or> is_section_header (strip l) = None"
    and "current_section st = Some (h, t)" and "h \<noteq> []"
  shows "current_section (scan_lines d (enumerate n body) st) = Some (h, t)
       \<and> sections (scan_lines d (enumerate n body) st) = sections st
       \<and> section_counter (scan_lines d (enumerate n body) st) = section_counter st
       \<and> current_section_lines (scan_lines d (enumerate n body) st)
            = current_section_lines st @ filter (\<lambda>l. strip l \<noteq> []) body"
  using assms
proof (induction body arbitrary: n st)
  case Nil
  then show ?case by (simp add: scan_lines_Nil)
next
  case (Cons l body)
  let ?st' = "scan_step d (n, l) st"
  have step: "current_section ?st' = Some (h, t) \<and> sections ?st' = sections st
      \<and> section_counter ?st' = section_counter st
      \<and> current_section_lines ?st' = current_section_lines st @ filter (\<lambda>l. strip l \<noteq> []) [l]"
    using Cons.prems by (auto simp: scan_step_def Let_def header_set_def)
  have "\<forall>l\<in>set body. strip l = [] \<or> is_section_header (strip l) = None"
    using Cons.prems(1) by simp
  from Cons.IH[OF this, of ?st' "Suc n"] step Cons.prems(3)
  show ?case by (simp add: scan_lines_Cons)
qed

text \<open>The emitted sections only grow.\<close>

lemma save_section_prefix: "prefix (sections st) (sections (save_section d st))"
  by (auto simp: save_section_def split: option.splits)

lemma scan_step_prefix: "prefix (sections st) (sections (scan_step d nl st))"
proof -
  let ?st1 = "st\<lparr> current_page := int (fst nl div lines_per_page) + 1 \<rparr>"
  have "prefix (sections ?st1) (sections (save_section d ?st1))" by (rule save_section_prefix)
  then show ?thesis
    by (auto simp: scan_step_def Let_def split: option.splits)
qed

lemma scan_lines_prefix: "prefix (sections st) (sections (scan_lines d nls st))"
  unfolding scan_lines_def
proof (induction nls arbitrary: st)
  case Nil
  then show ?case by simp
next
  case (Cons nl nls)
  have "prefix (sections st) (sections (scan_step d nl st))" by (rule scan_step_prefix)
  also have "prefix \<dots> (sections (fold (scan_step d) nls (scan_step d nl st)))" by (rule Cons.IH)
  finally show ?case by simp
qed

text \<open>Saving an open section with buffered lines appends the section built from them.\<close>

lemma save_section_open:
  assumes "current_section st = Some (h, t)" and "h \<noteq> []" and "current_section_lines st \<noteq> []"
  shows "sections (save_section d st) = sections st @
           [create_section d (section_counter st) h (current_section_lines st) t
              (current_page st) (extract_level h)]"
  using assms by (simp add: save_section_def)

lemma save_section_page:
  "save_section d (st\<lparr> current_page := p \<rparr>) = (case current_section st of
        None \<Rightarrow> st\<lparr> current_page := p \<rparr>
      | Some (header, section_type) \<Rightarrow>
          if header \<noteq> [] \<and> current_section_lines st \<noteq> []
          then st\<lparr> current_page := p, sections := sections st @
                       [create_section d (section_counter st) header
                          (current_section_lines st) section_type p
                          (extract_level header)],
                   section_counter := section_counter st + 1 \<rparr>
          else st\<lparr> current_page := p \<rparr>)"
  by (auto simp: save_section_def split: option.splits)

lemma heading_emits:
  assumes "current_section st = Some (h, t)" and "h \<noteq> []" and "current_section_lines st \<noteq> []"
    and "is_section_header (strip l) \<noteq> None"
  shows "sections (scan_step d (n, l) st) = sections st @
           [create_section d (section_counter st) h (current_section_lines st) t
              (int (n div lines_per_page) + 1) (extract_level h)]"
proof -
  from assms(4) have ne: "strip l \<noteq> []" using is_section_header_empty by auto
  from assms(4) obtain t' l' where hd: "is_section_header (strip l) = Some (t', l')" by auto
  show ?thesis using assms(1-3) ne hd
    by (simp add: scan_step_def Let_def save_section_page)
qed

lemma open_section_emitted:
  assumes lines: "split_on newline (fullText d) = pre @ h # body @ rest"
    and head: "is_section_header (strip h) \<noteq> None"
    and body: "\<forall>l\<in>set body. strip l = [] \<or> is_section_header (strip l) = None"
    and rest: "rest = [] \<or> is_section_header (strip (hd rest)) \<noteq> None"
    and buf: "filter (\<lambda>l. strip l \<noteq> []) body \<noteq> []"
  shows "\<exists>s\<in>set (raw_sections d).
           title s = take 200 (strip h)
           \<and> content s = strip (join_lines (filter (\<lambda>l. strip l \<noteq> []) body))
           \<and> level s = extract_level (strip h)"
proof -
  let ?buf = "filter (\<lambda>l. strip l \<noteq> []) body"
  let ?n = "length pre"
  define sa where "sa = scan_lines d (enumerate 0 pre) init_state"
  define sb where "sb = scan_step d (?n, h) sa"
  define sc where "sc = scan_lines d (enumerate (Suc ?n) body) sb"
  define sf where "sf = scan_lines d (enumerate (Suc ?n + length body) rest) sc"
  from head have ne: "strip h \<noteq> []" using is_section_header_empty by auto
  from head obtain t lv where hd: "is_section_header (strip h) = Some (t, lv)" by auto
  have sb: "current_section sb = Some (strip h, t)" "current_section_lines sb = []"
    using ne hd by (simp_all add: sb_def scan_step_def Let_def)
  from scan_body[OF body sb(1) ne, of d "Suc ?n"] sb(2)
  have sc: "current_section sc = Some (strip h, t)" "current_section_lines sc = ?buf"
    by (simp_all add: sc_def)
  have final: "raw_sections d = sections (save_section d sf)"
    unfolding raw_sections_def lines sf_def sc_def sb_def sa_def
    using scan_lines_append[of d 0 pre "h # body @ rest" init_state]
      scan_lines_Cons[of d "(?n, h)" "enumerate (Suc ?n) (body @ rest)"]
      scan_lines_append[of d "Suc ?n" body rest]
    by simp
  have "\<exists>p. create_section d (section_counter sc) (strip h) ?buf t p (extract_level (strip h))
              \<in> set (raw_sections d)"
  proof (cases rest)
    case Nil
    then have "sf = sc" by (simp add: sf_def scan_lines_Nil)
    with save_section_open[OF sc(1) ne, of d] sc(2) buf final show ?thesis by auto
  next
    case (Cons r rest')
    with rest have r: "is_section_header (strip r) \<noteq> None" by simp
    from heading_emits[OF sc(1) ne _ r, of d "Suc ?n + length body"] sc(2) buf
    obtain p where p: "sections (scan_step d (Suc ?n + length body, r) sc) = sections sc @
        [create_section d (section_counter sc) (strip h) ?buf t p (extract_level (strip h))]"
      by fastforce
    have "sf = scan_lines d (enumerate (Suc (Suc ?n + length body)) rest')
                 (scan_step d (Suc ?n + length body, r) sc)"
      by (simp add: sf_def Cons scan_lines_Cons)
    then have "prefix (sections (scan_step d (Suc ?n + length body, r) sc)) (sections sf)"
      using scan_lines_prefix by simp
    moreover have "prefix (sections sf) (raw_sections d)"
      unfolding final by (rule save_section_prefix)
    ultimately have "set (sections (scan_step d (Suc ?n + length body, r) sc)) \<subseteq> set (raw_sections d)"
      by (meson prefix_order.trans set_mono_prefix)
    with p show ?thesis by auto
  qed
  then obtain p where mem:
    "create_section d (section_counter sc) (strip h) ?buf t p (extract_level (strip h))
       \<in> set (raw_sections d)" by blast
  show ?thesis by (rule bexI[OF _ mem]) (simp add: create_section_def)
qed

section \<open>Sentences and the chunk loop\<close>

lemma recombine_nonblank: "s \<in> set (recombine xs) \<Longrightarrow> strip s \<noteq> []"
proof (induction xs arbitrary: s rule: recombine.induct)
  case (1 a b rest)
  show ?case
  proof (cases "strip (a @ b) = []")
    case True
    with "1.prems" have "s \<in> set (recombine rest)" by simp
    with "1.IH"(2)[OF refl _ this] True show ?thesis by simp
  next
    case False
    with "1.prems" have "s = strip (a @ b) \<or> s \<in> set (recombine rest)" by (simp add: Let_def)
    then show ?thesis
    proof
      assume "s = strip (a @ b)"
      then show ?thesis using False by (simp add: strip_idem)
    next
      assume "s \<in> set (recombine rest)"
      with "1.IH"(1)[OF refl _ this] False show ?thesis by simp
    qed
  qed
qed simp_all

lemma split_into_sentences_cases:
  "split_into_sentences text = [text] \<or> (\<forall>s\<in>set (split_into_sentences text). strip s \<noteq> [])"
proof -
  define ss where "ss = re_split 0 [] text"
  define r1 where "r1 = recombine ss"
  define r2 where "r2 = (if length ss mod 2 = 1 \<and> strip (last ss) \<noteq> []
                    then r1 @ [strip (last ss)] else r1)"
  have res: "split_into_sentences text = (if r2 \<noteq> [] then r2 else [text])"
    unfolding split_into_sentences_def Let_def r2_def r1_def ss_def by (rule refl)
  have "strip s \<noteq> []" if "s \<in> set r2" for s
  proof (cases "s \<in> set r1")
    case True
    then show ?thesis unfolding r1_def by (rule recombine_nonblank)
  next
    case False
    with that have "s = strip (last ss)" and "strip (last ss) \<noteq> []"
      unfolding r2_def by (auto split: if_splits)
    then show ?thesis by (simp add: strip_idem)
  qed
  then show ?thesis unfolding res by auto
qed

lemma strip_append_right: "strip b \<noteq> [] \<Longrightarrow> strip (a @ b) \<noteq> []"
  by (auto simp: strip_nonempty)

lemma strip_seeded: "strip sentence \<noteq> [] \<Longrightarrow> strip (a @ '' '' @ sentence) \<noteq> []"
  using strip_append_right[of sentence "a @ '' ''"] by simp

lemma chunk_step_close:
  "int (length cur) + int (length sentence) > csz \<and> cur \<noteq> [] \<Longrightarrow>
     chunk_step s csz oc (chunks, cur, idx) sentence =
       (chunks @ [create_chunk s idx (strip cur) (pageNumber s)],
        get_overlap_text cur oc @ '' '' @ sentence, idx + 1)"
  by (simp add: chunk_step_def)

lemma chunk_step_grow:
  "\<not> (int (length cur) + int (length sentence) > csz \<and> cur \<noteq> []) \<Longrightarrow>
     chunk_step s csz oc (chunks, cur, idx) sentence = (chunks, cur @ '' '' @ sentence, idx)"
  by (simp add: chunk_step_def)

lemma good_chunks_snoc:
  "good_chunks cs \<Longrightarrow> strip t \<noteq> [] \<Longrightarrow> good_chunks (cs @ [create_chunk s i (strip t) p])"
  by (simp add: good_chunks_def create_chunk_def strip_idem)

lemma chunk_step_good:
  assumes "good_chunks chunks" and "cur \<noteq> [] \<longrightarrow> strip cur \<noteq> []" and "strip sentence \<noteq> []"
    and "chunk_step s csz oc (chunks, cur, idx) sentence = (chunks', cur', idx')"
  shows "good_chunks chunks' \<and> strip cur' \<noteq> []"
proof (cases "int (length cur) + int (length sentence) > csz \<and> cur \<noteq> []")
  case True
  from assms(4) have c: "chunks' = chunks @ [create_chunk s idx (strip cur) (pageNumber s)]"
    and u: "cur' = get_overlap_text cur oc @ '' '' @ sentence"
    unfolding chunk_step_close[OF True] by simp_all
  have "strip cur' \<noteq> []" unfolding u using assms(3) by (rule strip_seeded)
  moreover have "good_chunks chunks'" unfolding c using assms(1,2) True
    by (intro good_chunks_snoc) simp_all
  ultimately show ?thesis by simp
next
  case False
  from assms(4) have c: "chunks' = chunks" and u: "cur' = cur @ '' '' @ sentence"
    unfolding chunk_step_grow[OF False] by simp_all
  have "strip cur' \<noteq> []" unfolding u using assms(3) by (rule strip_seeded)
  then show ?thesis using c assms(1) by simp
qed

lemma chunk_foldl_good:
  assumes "good_chunks chunks" and "cur \<noteq> [] \<longrightarrow> strip cur \<noteq> []"
    and "\<forall>x\<in>set sentences. strip x \<noteq> []"
    and "foldl (chunk_step s csz oc) (chunks, cur, idx) sentences = (chunks', cur', idx')"
  shows "good_chunks chunks'"
  using assms
proof (induction sentences arbitrary: chunks cur idx)
  case Nil
  then show ?case by simp
next
  case (Cons x xs)
  obtain c1 u1 i1 where st: "chunk_step s csz oc (chunks, cur, idx) x = (c1, u1, i1)"
    by (cases "chunk_step s csz oc (chunks, cur, idx) x") blast
  have x: "strip x \<noteq> []" and xs: "\<forall>x\<in>set xs. strip x \<noteq> []" using Cons.prems(3) by simp_all
  from chunk_step_good[OF Cons.prems(1,2) x st]
  have g: "good_chunks c1" and n: "u1 \<noteq> [] \<longrightarrow> strip u1 \<noteq> []" by simp_all
  have f: "foldl (chunk_step s csz oc) (c1, u1, i1) xs = (chunks', cur', idx')"
    using Cons.prems(4) st by simp
  show ?case by (rule Cons.IH[OF g n xs f])
qed

lemma chunk_section_long:
  assumes "\<not> length (content s) < 100"
    and "foldl (chunk_step s (chunk_size self * chars_per_token) (overlap self * chars_per_token))
           ([], [], 0) (split_into_sentences (content s)) = (chunks, cur, idx)"
  shows "chunk_section self s =
      (if strip cur \<noteq> [] then chunks @ [create_chunk s idx (strip cur) (pageNumber s)] else chunks)"
proof -
  have ne: "content s \<noteq> []" using assms(1) by auto
  show ?thesis unfolding chunk_section_def Let_def using assms ne by simp
qed

lemma chunk_section_long_good:
  assumes "\<not> length (content s) < 100"
  shows "good_chunks (chunk_section self s)"
proof -
  let ?csz = "chunk_size self * chars_per_token"
  let ?oc = "overlap self * chars_per_token"
  let ?ss = "split_into_sentences (content s)"
  obtain chunks cur idx where f: "foldl (chunk_step s ?csz ?oc) ([], [], 0) ?ss = (chunks, cur, idx)"
    by (cases "foldl (chunk_step s ?csz ?oc) ([], [], 0) ?ss") blast
  note res = chunk_section_long[OF assms f]
  have g0: "good_chunks []" by (simp add: good_chunks_def)
  have "good_chunks chunks"
  proof (cases "?ss = [content s]")
    case True
    with f have "chunks = []" by (simp add: chunk_step_def)
    then show ?thesis by (simp add: good_chunks_def)
  next
    case False
    with split_into_sentences_cases[of "content s"]
    have a: "\<forall>x\<in>set ?ss. strip x \<noteq> []" by blast
    have b: "([]::string) \<noteq> [] \<longrightarrow> strip [] \<noteq> []" by simp
    from chunk_foldl_good[OF g0 b a f] show ?thesis .
  qed
  then show ?thesis unfolding res by (simp add: good_chunks_snoc)
qed

section \<open>The overlap between consecutive chunks\<close>

lemma get_overlap_text_seed:
  "0 < oc \<Longrightarrow> get_overlap_text text oc = seed_fragment text (nat oc)"
  by (auto simp: get_overlap_text_def seed_fragment_def slice_from_def Let_def)

lemma rstrip_append:
  assumes "\<exists>c\<in>set ys. \<not> is_space c"
  shows "rstrip (xs @ ys) = xs @ rstrip ys"
proof -
  from assms obtain c where "c \<in> set (rev ys)" "\<not> is_space c" by auto
  then have "dropWhile is_space (rev ys @ rev xs) = dropWhile is_space (rev ys) @ rev xs"
    by (rule dropWhile_append1)
  then show ?thesis by (simp add: rstrip_def)
qed

lemma lstrip_append:
  assumes "\<exists>c\<in>set xs. \<not> is_space c"
  shows "lstrip (xs @ ys) = lstrip xs @ ys"
proof -
  from assms obtain c where "c \<in> set xs" "\<not> is_space c" by auto
  then show ?thesis unfolding lstrip_def by (rule dropWhile_append1)
qed

lemma seed_is_prefix:
  assumes "strip rest \<noteq> []"
  shows "prefix (lstrip f) (strip (f @ '' '' @ rest))"
proof (cases "lstrip f = []")
  case True
  then show ?thesis by simp
next
  case False
  then have f: "\<exists>c\<in>set f. \<not> is_space c" by (simp add: lstrip_nonempty)
  from assms have r: "\<exists>c\<in>set ('' '' @ rest). \<not> is_space c" by (auto simp: strip_nonempty)
  have "strip (f @ '' '' @ rest) = rstrip (lstrip f @ ('' '' @ rest))"
    unfolding strip_def using lstrip_append[OF f, of "'' '' @ rest"] by simp
  also have "\<dots> = lstrip f @ rstrip ('' '' @ rest)" by (rule rstrip_append[OF r])
  finally show ?thesis by simp
qed

lemma buffers_nonempty: "buffers csz n cur xs \<noteq> []"
  by (induction xs arbitrary: cur) auto

lemma foldl_buffers:
  assumes "0 < oc"
    and "foldl (chunk_step s csz oc) (chunks, cur, idx) xs = (chunks', cur', idx')"
  shows "map c_content chunks'
           = map c_content chunks @ map strip (butlast (buffers csz (nat oc) cur xs))
       \<and> cur' = last (buffers csz (nat oc) cur xs)"
  using assms(2)
proof (induction xs arbitrary: chunks cur idx)
  case Nil
  then show ?case by simp
next
  case (Cons x xs)
  show ?case
  proof (cases "int (length cur) + int (length x) > csz \<and> cur \<noteq> []")
    case True
    let ?cur1 = "seed_fragment cur (nat oc) @ '' '' @ x"
    have st: "chunk_step s csz oc (chunks, cur, idx) x =
        (chunks @ [create_chunk s idx (strip cur) (pageNumber s)], ?cur1, idx + 1)"
      using chunk_step_close[OF True, of s oc chunks idx] get_overlap_text_seed[OF assms(1), of cur]
      by simp
    have f: "foldl (chunk_step s csz oc)
               (chunks @ [create_chunk s idx (strip cur) (pageNumber s)], ?cur1, idx + 1) xs
             = (chunks', cur', idx')"
      using Cons.prems st by simp
    have b: "buffers csz (nat oc) cur (x # xs) = cur # buffers csz (nat oc) ?cur1 xs"
      using True by simp
    from Cons.IH[OF f] show ?thesis unfolding b
      using buffers_nonempty[of csz "nat oc" ?cur1 xs] by (simp add: create_chunk_def)
  next
    case False
    have st: "chunk_step s csz oc (chunks, cur, idx) x = (chunks, cur @ '' '' @ x, idx)"
      by (rule chunk_step_grow[OF False])
    have f: "foldl (chunk_step s csz oc) (chunks, cur @ '' '' @ x, idx) xs = (chunks', cur', idx')"
      using Cons.prems st by simp
    have b: "buffers csz (nat oc) cur (x # xs) = buffers csz (nat oc) (cur @ '' '' @ x) xs"
      using False by auto
    from Cons.IH[OF f] show ?thesis unfolding b .
  qed
qed

lemma buffers_hd: "\<exists>t. hd (buffers csz n cur xs) = cur @ t"
proof (induction xs arbitrary: cur)
  case Nil
  then show ?case by simp
next
  case (Cons x xs)
  show ?case
  proof (cases "int (length cur) + int (length x) > csz \<and> cur \<noteq> []")
    case True
    then show ?thesis by simp
  next
    case False
    from Cons.IH[of "cur @ '' '' @ x"] obtain t where
      "hd (buffers csz n (cur @ '' '' @ x) xs) = (cur @ '' '' @ x) @ t" by blast
    then have "hd (buffers csz n cur (x # xs)) = cur @ ('' '' @ x @ t)" using False by auto
    then show ?thesis by blast
  qed
qed

lemma buffers_consecutive:
  assumes "\<forall>x\<in>set xs. strip x \<noteq> []" and "0 < k" and "k < length (buffers csz n cur xs)"
  shows "\<exists>rest. buffers csz n cur xs ! k
                  = seed_fragment (buffers csz n cur xs ! (k - 1)) n @ '' '' @ rest
               \<and> strip rest \<noteq> []"
  using assms
proof (induction xs arbitrary: cur k)
  case Nil
  then show ?case by simp
next
  case (Cons x xs)
  have x: "strip x \<noteq> []" and xs: "\<forall>x\<in>set xs. strip x \<noteq> []" using Cons.prems(1) by simp_all
  show ?case
  proof (cases "int (length cur) + int (length x) > csz \<and> cur \<noteq> []")
    case False
    then have b: "buffers csz n cur (x # xs) = buffers csz n (cur @ '' '' @ x) xs" by auto
    from Cons.IH[OF xs Cons.prems(2), of "cur @ '' '' @ x"] Cons.prems(3) show ?thesis
      unfolding b by simp
  next
    case True
    let ?cur1 = "seed_fragment cur n @ '' '' @ x"
    let ?bs = "buffers csz n ?cur1 xs"
    have b: "buffers csz n cur (x # xs) = cur # ?bs" using True by simp
    show ?thesis
    proof (cases "k = 1")
      case k1: True
      from buffers_hd[of csz n ?cur1 xs] obtain t where t: "hd ?bs = ?cur1 @ t" by blast
      have ne: "?bs \<noteq> []" by (rule buffers_nonempty)
      have "(cur # ?bs) ! 1 = hd ?bs" using ne by (simp add: hd_conv_nth)
      then have "(cur # ?bs) ! 1 = seed_fragment cur n @ '' '' @ (x @ t)" using t by simp
      moreover have "strip (x @ t) \<noteq> []" using x by (auto simp: strip_nonempty)
      ultimately show ?thesis unfolding b k1 by auto
    next
      case False
      with Cons.prems(2) have k: "0 < k - 1" by simp
      have kl: "k - 1 < length ?bs" using Cons.prems(3) Cons.prems(2) unfolding b by simp
      from Cons.IH[OF xs k kl] obtain rest where
        r: "?bs ! (k - 1) = seed_fragment (?bs ! (k - 1 - 1)) n @ '' '' @ rest" "strip rest \<noteq> []"
        by blast
      have "(cur # ?bs) ! k = ?bs ! (k - 1)" using Cons.prems(2) by (simp add: nth_Cons')
      moreover have "(cur # ?bs) ! (k - 1) = ?bs ! (k - 1 - 1)" using k by (simp add: nth_Cons')
      ultimately show ?thesis unfolding b using r by auto
    qed
  qed
qed

lemma chunk_section_buffers:
  assumes "0 < overlap self" and "\<not> length (content s) < 100"
  shows "map c_content (chunk_section self s)
     = map strip
         (if strip (last (buffers (chunk_size self * 4) (nat (overlap self * 4)) []
                           (split_into_sentences (content s)))) \<noteq> []
          then buffers (chunk_size self * 4) (nat (overlap self * 4)) []
                 (split_into_sentences (content s))
          else butlast (buffers (chunk_size self * 4) (nat (overlap self * 4)) []
                 (split_into_sentences (content s))))"
proof -
  let ?csz = "chunk_size self * chars_per_token"
  let ?oc = "overlap self * chars_per_token"
  let ?ss = "split_into_sentences (content s)"
  let ?bs = "buffers ?csz (nat ?oc) [] ?ss"
  have oc: "0 < ?oc" using assms(1) by (simp add: chars_per_token_def)
  obtain chunks cur idx where f: "foldl (chunk_step s ?csz ?oc) ([], [], 0) ?ss = (chunks, cur, idx)"
    by (cases "foldl (chunk_step s ?csz ?oc) ([], [], 0) ?ss") blast
  note res = chunk_section_long[OF assms(2) f]
  from foldl_buffers[OF oc f] have c: "map c_content chunks = map strip (butlast ?bs)"
    and l: "cur = last ?bs" by simp_all
  have ne: "?bs \<noteq> []" by (rule buffers_nonempty)
  have "map c_content (chunk_section self s) = map strip (if strip (last ?bs) \<noteq> [] then ?bs else butlast ?bs)"
  proof (cases "strip (last ?bs) \<noteq> []")
    case True
    have "map strip ?bs = map strip (butlast ?bs @ [last ?bs])" using ne by simp
    then show ?thesis unfolding res using True c l by (simp add: create_chunk_def)
  next
    case False
    then show ?thesis unfolding res using c l by simp
  qed
  then show ?thesis by (simp add: chars_per_token_def)
qed

section \<open>The emitted sections are the heading blocks with text\<close>

lemma save_section_emitted:
  "map title_content (sections (save_section d st))
     = map title_content (sections st) @ open_part st []"
  by (auto simp: save_section_def open_part_def non_blank_def title_content_def
      create_section_def split: option.splits)

lemma emitted_Cons:
  "emitted (b # bs) =
     (if non_blank (snd b) \<noteq> []
      then [(take 200 (strip (fst b)), strip (join_lines (non_blank (snd b))))] else [])
     @ emitted bs"
  by (simp add: emitted_def)

lemma step_no_heading:
  assumes "\<not> is_heading l"
  shows "sections (scan_step d (n, l) st) = sections st
       \<and> current_section (scan_step d (n, l) st) = current_section st
       \<and> current_section_lines (scan_step d (n, l) st)
           = (if header_set st \<and> strip l \<noteq> [] then current_section_lines st @ [l]
              else current_section_lines st)"
proof (cases "strip l = []")
  case True
  then show ?thesis by (simp add: scan_step_def Let_def)
next
  case False
  with assms have "is_section_header (strip l) = None"
    by (cases "is_section_header (strip l)") (auto simp: is_heading_def)
  with False show ?thesis by (simp add: scan_step_def Let_def header_set_def)
qed

lemma open_part_no_heading:
  assumes "\<not> is_heading l"
  shows "open_part (scan_step d (n, l) st) body = open_part st (l # body)"
proof (cases "current_section st")
  case None
  then show ?thesis using step_no_heading[OF assms, of d n st] by (simp add: open_part_def)
next
  case (Some a)
  obtain h t where a: "a = (h, t)" by (cases a)
  show ?thesis
  proof (cases "h = []")
    case True
    then show ?thesis using Some a step_no_heading[OF assms, of d n st]
      by (simp add: open_part_def)
  next
    case False
    then have hs: "header_set st" using Some a by (simp add: header_set_def)
    show ?thesis using Some a False hs step_no_heading[OF assms, of d n st]
      by (simp add: open_part_def non_blank_def)
  qed
qed

lemma step_heading:
  assumes "is_heading l"
  shows "map title_content (sections (scan_step d (n, l) st))
           = map title_content (sections st) @ open_part st []
       \<and> (\<exists>t. current_section (scan_step d (n, l) st) = Some (strip l, t))
       \<and> current_section_lines (scan_step d (n, l) st) = []"
proof -
  from assms have ne: "strip l \<noteq> []" by (simp add: is_heading_def)
  from assms obtain t lv where hd: "is_section_header (strip l) = Some (t, lv)"
    by (auto simp: is_heading_def)
  let ?st1 = "st\<lparr> current_page := int (n div lines_per_page) + 1 \<rparr>"
  have op: "open_part ?st1 [] = open_part st []"
    by (simp add: open_part_def split: option.splits)
  have "sections (scan_step d (n, l) st) = sections (save_section d ?st1)"
    using ne hd by (simp add: scan_step_def Let_def)
  then have "map title_content (sections (scan_step d (n, l) st))
           = map title_content (sections st) @ open_part st []"
    using save_section_emitted[of d ?st1] op by simp
  moreover have "current_section (scan_step d (n, l) st) = Some (strip l, t)"
    using ne hd by (simp add: scan_step_def Let_def)
  moreover have "current_section_lines (scan_step d (n, l) st) = []"
    using ne hd by (simp add: scan_step_def Let_def)
  ultimately show ?thesis by blast
qed

lemma open_part_after_heading:
  assumes "current_section st = Some (strip l, t)" and "strip l \<noteq> []"
    and "current_section_lines st = []"
  shows "open_part st body = emitted [(l, body)]"
  using assms by (simp add: open_part_def emitted_def)

lemma scan_emitted:
  "map title_content (sections (save_section d (scan_lines d (enumerate n ls) st)))
     = map title_content (sections st)
       @ open_part st (takeWhile (\<lambda>x. \<not> is_heading x) ls)
       @ emitted (blocks ls)"
proof (induction ls arbitrary: n st)
  case Nil
  show ?case using save_section_emitted[of d st] by (simp add: scan_lines_Nil emitted_def)
next
  case (Cons l ls)
  let ?st' = "scan_step d (n, l) st"
  let ?tw = "takeWhile (\<lambda>x. \<not> is_heading x) ls"
  have sc: "scan_lines d (enumerate n (l # ls)) st = scan_lines d (enumerate (Suc n) ls) ?st'"
    by (simp add: scan_lines_Cons)
  note ih = Cons.IH[of "Suc n" ?st']
  show ?case
  proof (cases "is_heading l")
    case False
    have s: "sections ?st' = sections st" using step_no_heading[OF False] by simp
    show ?thesis unfolding sc ih s open_part_no_heading[OF False] using False by simp
  next
    case True
    from step_heading[OF True, of d n st] obtain t where
      s: "map title_content (sections ?st') = map title_content (sections st) @ open_part st []"
      and c: "current_section ?st' = Some (strip l, t)"
      and b: "current_section_lines ?st' = []" by blast
    from True have ne: "strip l \<noteq> []" by (simp add: is_heading_def)
    have o: "open_part ?st' ?tw = emitted [(l, ?tw)]"
      by (rule open_part_after_heading[OF c ne b])
    have e: "emitted (blocks (l # ls)) = emitted [(l, ?tw)] @ emitted (blocks ls)"
      using True by (simp add: emitted_def)
    show ?thesis unfolding sc ih s o e using True by simp
  qed
qed

lemma raw_sections_emitted:
  "map title_content (raw_sections d) = emitted (blocks (split_on newline (fullText d)))"
  unfolding raw_sections_def scan_emitted
  by (simp add: init_state_def open_part_def)

lemma result_title_content:
  "map title_content (build_hierarchy (renumber xs)) = map title_content xs"
proof (rule nth_equalityI)
  show "length (map title_content (build_hierarchy (renumber xs))) = length (map title_content xs)"
    by (simp add: build_hierarchy_length length_renumber)
next
  fix i assume "i < length (map title_content (build_hierarchy (renumber xs)))"
  then have i: "i < length xs" by (simp add: build_hierarchy_length length_renumber)
  then have "i < length (filter (\<lambda>_. True) xs)" by simp
  from result_nth[OF this] obtain p where
    "build_hierarchy (renumber xs) ! i = (xs ! i)\<lparr> order := i, parentSectionId := p \<rparr>" by auto
  then show "map title_content (build_hierarchy (renumber xs)) ! i = map title_content xs ! i"
    using i by (simp add: build_hierarchy_length length_renumber title_content_def)
qed

lemma no_empty_content: "s \<in> set (extract_sections d toc) \<Longrightarrow> content s \<noteq> []"
proof -
  assume s: "s \<in> set (extract_sections d toc)"
  obtain P where P: "extract_sections d toc = build_hierarchy (renumber (filter P (raw_sections d)))"
    using extract_sections_filter by blast
  from s obtain i where i: "i < length (filter P (raw_sections d))"
    and si: "s = extract_sections d toc ! i"
    unfolding P by (metis in_set_conv_nth result_length)
  from result_nth[OF i] obtain p where
    "s = (filter P (raw_sections d) ! i)\<lparr> order := i, parentSectionId := p \<rparr>"
    unfolding si P by blast
  then have c: "content s = content (filter P (raw_sections d) ! i)" by simp
  have "filter P (raw_sections d) ! i \<in> set (raw_sections d)"
    using nth_mem[OF i] by simp
  then obtain k where "k < length (raw_sections d)"
    "filter P (raw_sections d) ! i = raw_sections d ! k"
    by (metis in_set_conv_nth)
  then show "content s \<noteq> []" using raw_sections_inv[of k d] c by simp
qed

section \<open>The claims\<close>

text \<open>
  C1 (as amended). A heading line closes the open section, but the section is emitted
  only if at least one non-blank line was buffered for it: a heading with no non-blank
  line before the next heading, or before the end of the input, is dropped. The titles of
  the emitted sections are, in order, the headings of exactly those heading blocks that
  hold a non-blank line, and no section returned by \<open>extract_sections\<close> has empty content.
\<close>

theorem C1_bare_heading_dropped:
  "map title (raw_sections d)
     = map (\<lambda>b. take 200 (strip (fst b)))
         (filter (\<lambda>b. non_blank (snd b) \<noteq> []) (blocks (split_on newline (fullText d))))
   \<and> map title (extract_sections d None) = map title (raw_sections d)
   \<and> (\<forall>s\<in>set (extract_sections d toc). content s \<noteq> [])"
proof (intro conjI ballI)
  have "map fst (map title_content (raw_sections d))
          = map fst (emitted (blocks (split_on newline (fullText d))))"
    by (simp only: raw_sections_emitted)
  then show "map title (raw_sections d)
     = map (\<lambda>b. take 200 (strip (fst b)))
         (filter (\<lambda>b. non_blank (snd b) \<noteq> []) (blocks (split_on newline (fullText d))))"
    by (simp add: emitted_def title_content_def comp_def)
next
  have "map fst (map title_content (extract_sections d None))
          = map fst (map title_content (raw_sections d))"
    by (simp only: extract_sections_kept result_title_content) (simp add: kept_def)
  then show "map title (extract_sections d None) = map title (raw_sections d)"
    by (simp add: title_content_def comp_def)
next
  fix s assume "s \<in> set (extract_sections d toc)"
  then show "content s \<noteq> []" by (rule no_empty_content)
qed

text \<open>
  Witness for C1: of three headings, the first followed by a whitespace-only line and the
  last by the end of the input, only the second yields a section.
\<close>

theorem C1_bare_heading_dropped_witness:
  "blocks (split_on newline (fullText doc_bare_headings))
     = [(''PREMESSA'', [''   '']), (''OGGETTO'', [''abc'']), (''QUESITO'', [])]
   \<and> map title (raw_sections doc_bare_headings) = [''OGGETTO'']
   \<and> map title (extract_sections doc_bare_headings None) = [''OGGETTO'']
   \<and> hd (extract_sections doc_bare_headings None) \<in> set (extract_sections doc_bare_headings None)
   \<and> content (hd (extract_sections doc_bare_headings None)) \<noteq> []"
proof -
  have b: "blocks (split_on newline (fullText doc_bare_headings))
     = [(''PREMESSA'', [''   '']), (''OGGETTO'', [''abc'']), (''QUESITO'', [])]" by code_simp
  have e: "map (\<lambda>b. take 200 (strip (fst b)))
         (filter (\<lambda>b. non_blank (snd b) \<noteq> [])
            (blocks (split_on newline (fullText doc_bare_headings)))) = [''OGGETTO'']"
    by code_simp
  note t = C1_bare_heading_dropped[of doc_bare_headings None]
  from t e have r: "map title (raw_sections doc_bare_headings) = [''OGGETTO'']" by simp
  from t r have x: "map title (extract_sections doc_bare_headings None) = [''OGGETTO'']" by simp
  then have "extract_sections doc_bare_headings None \<noteq> []" by auto
  then have m: "hd (extract_sections doc_bare_headings None)
                  \<in> set (extract_sections doc_bare_headings None)" by simp
  from t m have "content (hd (extract_sections doc_bare_headings None)) \<noteq> []" by blast
  with b r x m show ?thesis by blast
qed

text \<open>
  Counterexample to C1 as stated: in the text ``PREMESSA / OGGETTO / abc'' the heading
  PREMESSA is open, with nothing buffered, when the heading OGGETTO arrives. The claim
  has a section PREMESSA with empty content emitted; the code emits only OGGETTO.
\<close>

theorem C1_counterexample:
  "map title (extract_sections \<lparr> documentId = ''D'', doc_type = ''Circolare'', pageCount = 1,
     fullText = ''PREMESSA\<newline>OGGETTO\<newline>abc'' \<rparr> None) = [''OGGETTO'']
   \<and> map content (extract_sections \<lparr> documentId = ''D'', doc_type = ''Circolare'',
     pageCount = 1, fullText = ''PREMESSA\<newline>OGGETTO\<newline>abc'' \<rparr> None) = [''abc'']"
  by code_simp

text \<open>
  C2 (as amended). For a section whose content has at least 100 characters, every chunk
  returned by \<open>chunk_section\<close> has content that is non-empty and equal to its own trimmed
  form. For a section with shorter content (the empty content too) the single chunk
  carries the section's content as it is.
\<close>

theorem C2_chunks_trimmed:
  "\<forall>c\<in>set (chunk_section self s).
     (100 \<le> length (content s) \<longrightarrow> c_content c \<noteq> [] \<and> strip (c_content c) = c_content c)
     \<and> (length (content s) < 100 \<longrightarrow> c_content c = content s)"
proof (cases "length (content s) < 100")
  case True
  then show ?thesis by (simp add: chunk_section_def create_chunk_def)
next
  case False
  from chunk_section_long_good[OF this, of self] False show ?thesis
    by (simp add: good_chunks_def)
qed

text \<open>Witness for C2: the first chunk of the section of three sentences.\<close>

theorem C2_chunks_trimmed_witness:
  "hd (chunk_section \<lparr> chunk_size = 25, overlap = 5 \<rparr> long_section)
     \<in> set (chunk_section \<lparr> chunk_size = 25, overlap = 5 \<rparr> long_section)
   \<and> 100 \<le> length (content long_section)
   \<and> c_content (hd (chunk_section \<lparr> chunk_size = 25, overlap = 5 \<rparr> long_section)) \<noteq> []
   \<and> strip (c_content (hd (chunk_section \<lparr> chunk_size = 25, overlap = 5 \<rparr> long_section)))
       = c_content (hd (chunk_section \<lparr> chunk_size = 25, overlap = 5 \<rparr> long_section))"
proof -
  let ?cs = "chunk_section \<lparr> chunk_size = 25, overlap = 5 \<rparr> long_section"
  have "?cs \<noteq> []" by code_simp
  then have m: "hd ?cs \<in> set ?cs" by simp
  have l: "100 \<le> length (content long_section)" by code_simp
  from C2_chunks_trimmed[of "\<lparr> chunk_size = 25, overlap = 5 \<rparr>" long_section, rule_format, OF m]
    m l show ?thesis by blast
qed

text \<open>
  Counterexample to C2 as stated: the section with empty content yields one chunk, and
  its content is empty.
\<close>

theorem C2_counterexample:
  "map c_content (chunk_section \<lparr> chunk_size = 512, overlap = 50 \<rparr> empty_section) = [[]]"
  by code_simp

text \<open>
  C3. The claim is that every table of contents returned by \<open>extract_toc\<close> has
  \<open>startPage \<le> endPage\<close>, both within \<open>[1, pageCount]\<close>. The detector checks a candidate
  page against the number of pages only from above. For the three-page Circolare whose
  page 2 lists the PREMESSA at page 2, the candidate 2 passes the validation (the word is
  on page 2 itself), and the result has \<open>startPage = 2\<close> and \<open>endPage = 1\<close>.
\<close>

theorem C3_toc_range_inverted:
  "length pages_toc_and_premessa = 3
   \<and> map_option startPage (extract_toc circolare pages_toc_and_premessa) = Some 2
   \<and> map_option endPage (extract_toc circolare pages_toc_and_premessa) = Some 1
   \<and> map_option detectionMethod (extract_toc circolare pages_toc_and_premessa) = Some ''PREMESSA''"
  by code_simp

text \<open>
  C4 (as amended). While a section is open, every non-heading line that is not blank is
  appended to the buffer; blank and whitespace-only lines are skipped. The emitted
  sections are, in order, the heading blocks with at least one non-blank line, and the
  content of each is the trimmed newline-join of the non-blank lines strictly between its
  heading line and the next heading line, or the end of the input; a block with no such
  line yields no section. The returned list carries the same titles and contents, for the
  sections that the filter keeps.
\<close>

theorem C4_section_content:
  "map (\<lambda>s. (title s, content s)) (raw_sections d)
     = map (\<lambda>b. (take 200 (strip (fst b)), strip (join_lines (non_blank (snd b)))))
         (filter (\<lambda>b. non_blank (snd b) \<noteq> []) (blocks (split_on newline (fullText d))))
   \<and> map (\<lambda>s. (title s, content s)) (extract_sections d toc)
       = map (\<lambda>s. (title s, content s)) (filter (kept toc) (raw_sections d))"
proof -
  have tc: "title_content = (\<lambda>s. (title s, content s))"
    by (rule ext) (simp add: title_content_def)
  show ?thesis
    using raw_sections_emitted[of d]
      result_title_content[of "filter (kept toc) (raw_sections d)"]
    unfolding tc emitted_def extract_sections_kept by simp
qed

text \<open>
  Witness for C4: the heading OGGETTO followed by the lines \<open>a\<close>, a blank line and
  \<open>b\<close>, at the end of the input.
\<close>

theorem C4_section_content_witness:
  "blocks (split_on newline (fullText doc_blank_line)) = [(''OGGETTO'', [''a'', [], ''b''])]
   \<and> map (\<lambda>s. (title s, content s)) (raw_sections doc_blank_line) = [(''OGGETTO'', ''a\<newline>b'')]
   \<and> map (\<lambda>s. (title s, content s)) (extract_sections doc_blank_line None)
       = [(''OGGETTO'', ''a\<newline>b'')]"
proof -
  have b: "blocks (split_on newline (fullText doc_blank_line)) = [(''OGGETTO'', [''a'', [], ''b''])]"
    by code_simp
  have e: "map (\<lambda>b. (take 200 (strip (fst b)), strip (join_lines (non_blank (snd b)))))
         (filter (\<lambda>b. non_blank (snd b) \<noteq> [])
            (blocks (split_on newline (fullText doc_blank_line)))) = [(''OGGETTO'', ''a\<newline>b'')]"
    by code_simp
  note t = C4_section_content[of doc_blank_line None]
  from t e have r: "map (\<lambda>s. (title s, content s)) (raw_sections doc_blank_line)
                      = [(''OGGETTO'', ''a\<newline>b'')]" by simp
  have k: "filter (kept None) (raw_sections doc_blank_line) = raw_sections doc_blank_line"
    by (simp add: kept_def)
  from t r k have "map (\<lambda>s. (title s, content s)) (extract_sections doc_blank_line None)
                      = [(''OGGETTO'', ''a\<newline>b'')]" by simp
  with b r show ?thesis by blast
qed

text \<open>
  Counterexample to C4 as stated: for the same document the lines strictly between the
  heading and the end of the input are \<open>a\<close>, the empty line and \<open>b\<close>, whose trimmed
  newline-join has two newlines; the content of the emitted section has one.
\<close>

theorem C4_counterexample:
  "split_on newline (fullText doc_blank_line) = [''OGGETTO'', ''a'', [], ''b'']
   \<and> map content (extract_sections doc_blank_line None) = [''a\<newline>b'']
   \<and> strip (join_lines [''a'', [], ''b'']) = ''a\<newline>\<newline>b''"
  by code_simp

text \<open>
  C5. When a table of contents is passed to the segmentation, the filter removes a
  section if and only if its estimated page lies within \<open>[startPage, endPage]\<close> and its
  content is shorter than 100 characters; all other sections stay, in their order. The
  loop of \<open>_filter_toc_sections\<close> computes the list filter of the negated rule, and
  \<open>extract_sections\<close> renumbers and links exactly that list.
\<close>

theorem C5_toc_filter:
  "filter_toc_sections secs toc = filter (\<lambda>s. \<not> toc_entry toc s) secs
   \<and> extract_sections document (Some toc) =
       build_hierarchy (renumber (filter (\<lambda>s. \<not> toc_entry toc s) (raw_sections document)))"
  by (simp add: extract_sections_def filter_toc_sections_eq)

text \<open>
  C6. In every list returned by \<open>extract_sections\<close>, a section with a parent identifier
  has exactly one section of the list with that identifier; that parent is one level up
  and has a strictly smaller \<open>order\<close>.
\<close>

theorem C6_parent_links:
  "\<forall>n<length (extract_sections d toc). \<forall>pid.
     parentSectionId (extract_sections d toc ! n) = Some pid \<longrightarrow>
     (\<exists>i<length (extract_sections d toc).
        sectionId (extract_sections d toc ! i) = pid
        \<and> (\<forall>j<length (extract_sections d toc).
              sectionId (extract_sections d toc ! j) = pid \<longrightarrow> j = i)
        \<and> int (level (extract_sections d toc ! i)) = int (level (extract_sections d toc ! n)) - 1
        \<and> order (extract_sections d toc ! i) < order (extract_sections d toc ! n))"
proof (intro allI impI)
  fix n pid
  let ?xs = "renumber (filter (kept toc) (raw_sections d))"
  let ?res = "extract_sections d toc"
  assume n: "n < length ?res" and p: "parentSectionId (?res ! n) = Some pid"
  have res: "?res = build_hierarchy ?xs" by (rule extract_sections_kept)
  have len: "length ?res = length ?xs" by (simp add: res build_hierarchy_length)
  have fields: "sectionId (?res ! k) = sectionId (?xs ! k) \<and> level (?res ! k) = level (?xs ! k)
                  \<and> order (?res ! k) = k" if "k < length ?xs" for k
  proof -
    from build_hierarchy_nth[OF that] obtain q where
      "?res ! k = (?xs ! k)\<lparr> parentSectionId := q \<rparr>" unfolding res by blast
    moreover have "order (?xs ! k) = k" using that by (simp add: length_renumber renumber_nth)
    ultimately show ?thesis by simp
  qed
  from n len have n': "n < length ?xs" by simp
  from build_hierarchy_parent[OF renumbered_no_parent n'] p
  obtain i where i: "i < n" and id: "sectionId (?xs ! i) = pid"
    and lv: "level (?xs ! i) + 1 = level (?xs ! n)" unfolding res by blast
  from i n' have i': "i < length ?xs" by simp
  have uniq: "j = i" if "j < length ?res" "sectionId (?res ! j) = pid" for j
  proof -
    have "map sectionId ?res ! j = map sectionId ?res ! i"
      using that i' len fields[OF i'] id by simp
    with distinct_result_ids[of d toc] that(1) i' len show ?thesis
      by (simp add: nth_eq_iff_index_eq del: nth_map)
  qed
  show "\<exists>i<length ?res. sectionId (?res ! i) = pid
        \<and> (\<forall>j<length ?res. sectionId (?res ! j) = pid \<longrightarrow> j = i)
        \<and> int (level (?res ! i)) = int (level (?res ! n)) - 1
        \<and> order (?res ! i) < order (?res ! n)"
  proof (intro exI[of _ i] conjI allI impI)
    show "i < length ?res" using i' len by simp
    show "sectionId (?res ! i) = pid" using fields[OF i'] id by simp
    show "int (level (?res ! i)) = int (level (?res ! n)) - 1"
      using fields[OF i'] fields[OF n'] lv by simp
    show "order (?res ! i) < order (?res ! n)" using fields[OF i'] fields[OF n'] i by simp
  next
    fix j assume "j < length ?res" "sectionId (?res ! j) = pid"
    then show "j = i" by (rule uniq)
  qed
qed

text \<open>Witness for C6: the second-level section of the example has the first as parent.\<close>

theorem C6_parent_links_witness:
  "1 < length (extract_sections doc_nested None)
   \<and> parentSectionId (extract_sections doc_nested None ! 1) = Some ''D_SEC_0''
   \<and> (\<exists>i<length (extract_sections doc_nested None).
        sectionId (extract_sections doc_nested None ! i) = ''D_SEC_0''
        \<and> int (level (extract_sections doc_nested None ! i))
            = int (level (extract_sections doc_nested None ! 1)) - 1
        \<and> order (extract_sections doc_nested None ! i) < order (extract_sections doc_nested None ! 1))"
proof -
  have a: "1 < length (extract_sections doc_nested None)" by code_simp
  have b: "parentSectionId (extract_sections doc_nested None ! 1) = Some ''D_SEC_0''" by code_simp
  from C6_parent_links[of doc_nested None, rule_format, OF a b] a b show ?thesis by blast
qed

text \<open>
  C7. For every document and optional table of contents, the \<open>order\<close> values of the
  returned sections are \<open>0, 1, \<dots>, N - 1\<close> in list order, after filtering.
\<close>

theorem C7_order_contiguous:
  "map order (extract_sections document toc) = [0..<length (extract_sections document toc)]"
  by (simp add: extract_sections_def Let_def map_order_build_hierarchy map_order_renumber
      build_hierarchy_length length_renumber)

text \<open>
  C8. For a section whose content is shorter than 100 characters, \<open>chunk_section\<close>
  returns exactly one chunk, with index 0 and the section's content, whatever the chunk
  size and the overlap; chunking that content again, under any configuration, gives the
  same content.
\<close>

theorem C8_short_section:
  assumes "length (content s) < 100"
  shows "chunk_section self s = [create_chunk s 0 (content s) (pageNumber s)]
       \<and> map chunkIndex (chunk_section self s) = [0]
       \<and> map c_content (chunk_section self s) = [content s]
       \<and> map c_content (chunk_section self' (s\<lparr> content := c_content (hd (chunk_section self s)) \<rparr>))
           = map c_content (chunk_section self s)"
  using assms by (simp add: chunk_section_def create_chunk_def)

text \<open>Witness for C8: the section of 90 characters, under a chunk size of 10 tokens.\<close>

theorem C8_short_section_witness:
  "length (content short_section) < 100
   \<and> map chunkIndex (chunk_section \<lparr> chunk_size = 10, overlap = 2 \<rparr> short_section) = [0]
   \<and> map c_content (chunk_section \<lparr> chunk_size = 10, overlap = 2 \<rparr> short_section)
       = [content short_section]"
proof -
  have l: "length (content short_section) < 100" by (simp add: short_section_def)
  from C8_short_section[OF l, of "\<lparr> chunk_size = 10, overlap = 2 \<rparr>"] l show ?thesis by blast
qed

text \<open>
  C9 (as amended). For a positive overlap and a section that yields at least two chunks,
  let \<open>bs\<close> be the running texts of the chunk loop. The chunks are the trimmed texts of
  \<open>bs\<close>, in order, so \<open>bs ! (k - 1)\<close> is the buffered text of chunk \<open>k - 1\<close>. Every running
  text after the first begins with the overlap fragment of the one before it and a space,
  where the fragment of a text of at most \<open>overlap * 4\<close> characters is the whole text,
  uncut, and the fragment of a longer text is its last \<open>overlap * 4\<close> characters cut
  forward to just after the first sentence terminator that is followed by whitespace (and
  that whitespace), or uncut if the slice has none. Chunk \<open>k\<close> therefore begins with that
  fragment without its leading whitespace.
\<close>

theorem C9_overlap_seed:
  assumes "0 < overlap self" and "1 < length (chunk_section self s)"
  shows "let n = nat (overlap self * 4);
             bs = buffers (chunk_size self * 4) n [] (split_into_sentences (content s))
         in map c_content (chunk_section self s)
              = map strip (if strip (last bs) \<noteq> [] then bs else butlast bs)
          \<and> (\<forall>k. 0 < k \<and> k < length bs \<longrightarrow>
                prefix (seed_fragment (bs ! (k - 1)) n @ '' '') (bs ! k))
          \<and> (\<forall>k. 0 < k \<and> k < length (chunk_section self s) \<longrightarrow>
                prefix (lstrip (seed_fragment (bs ! (k - 1)) n))
                       (c_content (chunk_section self s ! k)))"
proof -
  define n where "n = nat (overlap self * 4)"
  define bs where "bs = buffers (chunk_size self * 4) n [] (split_into_sentences (content s))"
  have long: "\<not> length (content s) < 100"
  proof
    assume "length (content s) < 100"
    then have "length (chunk_section self s) = 1" by (simp add: chunk_section_def)
    with assms(2) show False by simp
  qed
  have m: "map c_content (chunk_section self s)
             = map strip (if strip (last bs) \<noteq> [] then bs else butlast bs)"
    unfolding bs_def n_def by (rule chunk_section_buffers[OF assms(1) long])
  have multi: "1 < length bs"
  proof -
    have "length (chunk_section self s) = length (if strip (last bs) \<noteq> [] then bs else butlast bs)"
      using arg_cong[OF m, of length] by simp
    with assms(2) show ?thesis by (auto split: if_splits)
  qed
  have nb: "\<forall>x\<in>set (split_into_sentences (content s)). strip x \<noteq> []"
  proof (cases "split_into_sentences (content s) = [content s]")
    case True
    then have "bs = ['' '' @ content s]" by (simp add: bs_def)
    with multi show ?thesis by simp
  next
    case False
    with split_into_sentences_cases[of "content s"] show ?thesis by blast
  qed
  have cons: "\<exists>rest. bs ! k = seed_fragment (bs ! (k - 1)) n @ '' '' @ rest \<and> strip rest \<noteq> []"
    if "0 < k" "k < length bs" for k
    using buffers_consecutive[OF nb that(1), of "chunk_size self * 4" n "[]"] that(2)
    unfolding bs_def by blast
  have p1: "prefix (seed_fragment (bs ! (k - 1)) n @ '' '') (bs ! k)"
    if "0 < k \<and> k < length bs" for k
  proof -
    from cons[of k] that obtain rest where
      "bs ! k = seed_fragment (bs ! (k - 1)) n @ '' '' @ rest" by blast
    then show ?thesis by (simp add: prefix_def)
  qed
  have p2: "prefix (lstrip (seed_fragment (bs ! (k - 1)) n)) (c_content (chunk_section self s ! k))"
    if k: "0 < k \<and> k < length (chunk_section self s)" for k
  proof -
    have lk: "k < length (if strip (last bs) \<noteq> [] then bs else butlast bs)"
      using arg_cong[OF m, of length] k by simp
    then have kb: "k < length bs" by (auto split: if_splits)
    have "map c_content (chunk_section self s) ! k
            = map strip (if strip (last bs) \<noteq> [] then bs else butlast bs) ! k"
      by (simp only: m)
    then have "c_content (chunk_section self s ! k)
            = strip ((if strip (last bs) \<noteq> [] then bs else butlast bs) ! k)"
      using k lk by simp
    also have "(if strip (last bs) \<noteq> [] then bs else butlast bs) ! k = bs ! k"
      using lk by (auto simp: nth_butlast split: if_splits)
    finally have c: "c_content (chunk_section self s ! k) = strip (bs ! k)" .
    from cons[of k] k kb obtain rest where
      r: "bs ! k = seed_fragment (bs ! (k - 1)) n @ '' '' @ rest" "strip rest \<noteq> []" by blast
    show ?thesis unfolding c r(1) by (rule seed_is_prefix[OF r(2)])
  qed
  show ?thesis unfolding Let_def n_def[symmetric] bs_def[symmetric]
    using m p1 p2 by blast
qed

text \<open>
  Witness for C9: the section of three sentences under 25 tokens a chunk and 5 tokens of
  overlap. The first running text is the first two sentences; the second begins with the
  last 20 characters of the first, which hold no sentence boundary.
\<close>

theorem C9_overlap_seed_witness:
  "0 < overlap \<lparr> chunk_size = 25, overlap = 5 \<rparr>
   \<and> 1 < length (chunk_section \<lparr> chunk_size = 25, overlap = 5 \<rparr> long_section)
   \<and> buffers 100 20 [] (split_into_sentences (content long_section))
       = ['' '' @ sentence_one @ '' '' @ sentence_two,
          replicate 19 (CHR ''b'') @ ''. '' @ sentence_three]
   \<and> map c_content (chunk_section \<lparr> chunk_size = 25, overlap = 5 \<rparr> long_section)
       = [sentence_one @ '' '' @ sentence_two,
          replicate 19 (CHR ''b'') @ ''. '' @ sentence_three]
   \<and> prefix (lstrip (seed_fragment ('' '' @ sentence_one @ '' '' @ sentence_two) 20))
        (c_content (chunk_section \<lparr> chunk_size = 25, overlap = 5 \<rparr> long_section ! 1))"
proof -
  let ?cfg = "\<lparr> chunk_size = 25, overlap = 5 \<rparr>"
  let ?bs = "buffers 100 20 [] (split_into_sentences (content long_section))"
  have o: "0 < overlap ?cfg" by simp
  have l: "1 < length (chunk_section ?cfg long_section)" by code_simp
  have b: "?bs = ['' '' @ sentence_one @ '' '' @ sentence_two,
          replicate 19 (CHR ''b'') @ ''. '' @ sentence_three]" by code_simp
  have v: "map strip (if strip (last ?bs) \<noteq> [] then ?bs else butlast ?bs)
       = [sentence_one @ '' '' @ sentence_two,
          replicate 19 (CHR ''b'') @ ''. '' @ sentence_three]" by code_simp
  have k: "0 < (1::nat) \<and> 1 < length (chunk_section ?cfg long_section)" using l by simp
  have i: "?bs ! (1 - 1) = '' '' @ sentence_one @ '' '' @ sentence_two" unfolding b by simp
  have cs: "chunk_size ?cfg * 4 = 100" and n: "nat (overlap ?cfg * 4) = 20" by simp_all
  note t = C9_overlap_seed[OF o l, unfolded Let_def cs n]
  from t have "map c_content (chunk_section ?cfg long_section)
       = map strip (if strip (last ?bs) \<noteq> [] then ?bs else butlast ?bs)" by (rule conjunct1)
  then have m: "map c_content (chunk_section ?cfg long_section)
       = [sentence_one @ '' '' @ sentence_two,
          replicate 19 (CHR ''b'') @ ''. '' @ sentence_three]" by (simp only: v)
  from t have "\<forall>k. 0 < k \<and> k < length (chunk_section ?cfg long_section) \<longrightarrow>
      prefix (lstrip (seed_fragment (?bs ! (k - 1)) 20))
        (c_content (chunk_section ?cfg long_section ! k))" by (rule conjunct2[THEN conjunct2])
  with k have "prefix (lstrip (seed_fragment (?bs ! (1 - 1)) 20))
        (c_content (chunk_section ?cfg long_section ! 1))" by blast
  then have p: "prefix (lstrip (seed_fragment ('' '' @ sentence_one @ '' '' @ sentence_two) 20))
        (c_content (chunk_section ?cfg long_section ! 1))" by (simp only: i)
  from o l b m p show ?thesis by blast
qed

text \<open>
  Counterexample to C9 as stated, with an overlap of 20 tokens under a chunk size of 25:
  the text behind chunk 0 is the first two sentences, each after a space, 62 characters,
  fewer than the 80 of the overlap. Cut forward after its first sentence terminator, as
  the claim has it, the fragment is the second sentence; left whole, it starts with a
  space. Chunk 1 repeats both sentences and begins with neither.
\<close>

theorem C9_counterexample:
  "foldl (chunk_step long_section 100 80) ([], [], 0) [sentence_one, sentence_two]
     = ([], '' '' @ sentence_one @ '' '' @ sentence_two, 0)
   \<and> map c_content (chunk_section \<lparr> chunk_size = 25, overlap = 20 \<rparr> long_section)
       = [sentence_one @ '' '' @ sentence_two,
          sentence_one @ '' '' @ sentence_two @ '' '' @ sentence_three]
   \<and> spec_fragment ('' '' @ sentence_one @ '' '' @ sentence_two) 80 = sentence_two
   \<and> \<not> prefix (spec_fragment ('' '' @ sentence_one @ '' '' @ sentence_two) 80)
         (c_content (chunk_section \<lparr> chunk_size = 25, overlap = 20 \<rparr> long_section ! 1))
   \<and> \<not> prefix ('' '' @ sentence_one @ '' '' @ sentence_two)
         (c_content (chunk_section \<lparr> chunk_size = 25, overlap = 20 \<rparr> long_section ! 1))"
  by code_simp

text \<open>
  With an overlap of zero the slice \<open>text[-0:]\<close> of the source is the whole text, not its
  last zero characters: the second chunk still repeats the second sentence. The theorem
  for C9 above assumes a positive overlap.
\<close>

lemma overlap_zero_slip:
  "get_overlap_text ('' '' @ sentence_one @ '' '' @ sentence_two) 0 = sentence_two
   \<and> spec_fragment ('' '' @ sentence_one @ '' '' @ sentence_two) 0 = []
   \<and> map c_content (chunk_section \<lparr> chunk_size = 25, overlap = 0 \<rparr> long_section)
       = [sentence_one @ '' '' @ sentence_two, sentence_two @ '' '' @ sentence_three]"
  by code_simp

text \<open>
  C10. Each returned section is a section of the sequence before filtering, say the one
  at index \<open>j\<close>, with \<open>order\<close> set to its final position; its identifier is the
  document's identifier, \<open>_SEC_\<close> and the decimal form of \<open>j\<close>. The identifiers of one
  output are pairwise distinct. When the filter removed a section before index \<open>j\<close>, the
  final position is smaller than \<open>j\<close>, so the number in the identifier is not the
  \<open>order\<close>.
\<close>

theorem C10_section_ids:
  "distinct (map sectionId (extract_sections d toc))
   \<and> (\<forall>i<length (extract_sections d toc). \<exists>j<length (raw_sections d).
         (\<exists>p. extract_sections d toc ! i = (raw_sections d ! j)\<lparr> order := i, parentSectionId := p \<rparr>)
       \<and> sectionId (extract_sections d toc ! i) = documentId d @ ''_SEC_'' @ str_nat j
       \<and> i \<le> j
       \<and> ((\<exists>k<j. \<not> kept toc (raw_sections d ! k)) \<longrightarrow>
            i < j \<and> str_nat (order (extract_sections d toc ! i)) \<noteq> str_nat j))"
proof (intro conjI allI impI)
  show "distinct (map sectionId (extract_sections d toc))" by (rule distinct_result_ids)
next
  fix i assume "i < length (extract_sections d toc)"
  then have i: "i < length (filter (kept toc) (raw_sections d))"
    by (simp add: extract_sections_kept result_length)
  from filter_nth_origin[OF i] obtain j where j: "j < length (raw_sections d)"
    and e: "filter (kept toc) (raw_sections d) ! i = raw_sections d ! j"
    and n: "i = length (filter (kept toc) (take j (raw_sections d)))" by blast
  from result_nth[OF i] obtain p where
    r: "extract_sections d toc ! i = (raw_sections d ! j)\<lparr> order := i, parentSectionId := p \<rparr>"
    unfolding extract_sections_kept e by blast
  have le: "i \<le> j" using n j by (metis length_filter_le length_take min.absorb2 less_imp_le)
  have id: "sectionId (extract_sections d toc ! i) = documentId d @ ''_SEC_'' @ str_nat j"
    using r raw_sections_inv[OF j] by (simp add: section_id_def)
  have lt: "i < j \<and> str_nat (order (extract_sections d toc ! i)) \<noteq> str_nat j"
    if "\<exists>k<j. \<not> kept toc (raw_sections d ! k)"
  proof -
    from that obtain k where "k < j" "\<not> kept toc (raw_sections d ! k)" by blast
    from filter_take_less[of j "raw_sections d" k "kept toc", OF j this] n have "i < j" by simp
    moreover have "order (extract_sections d toc ! i) = i" using r by simp
    ultimately show ?thesis using str_nat_inj by auto
  qed
  show "\<exists>j<length (raw_sections d).
         (\<exists>p. extract_sections d toc ! i = (raw_sections d ! j)\<lparr> order := i, parentSectionId := p \<rparr>)
       \<and> sectionId (extract_sections d toc ! i) = documentId d @ ''_SEC_'' @ str_nat j
       \<and> i \<le> j
       \<and> ((\<exists>k<j. \<not> kept toc (raw_sections d ! k)) \<longrightarrow>
            i < j \<and> str_nat (order (extract_sections d toc ! i)) \<noteq> str_nat j)"
    using j r id le lt by blast
qed

text \<open>
  Witness for C10: the first section of the example is filtered out, and the section
  that stays has identifier \<open>D_SEC_1\<close> and \<open>order\<close> 0.
\<close>

theorem C10_section_ids_witness:
  "0 < length (extract_sections doc_two_sections (Some toc_page_one))
   \<and> (\<exists>j<length (raw_sections doc_two_sections).
        sectionId (extract_sections doc_two_sections (Some toc_page_one) ! 0)
          = documentId doc_two_sections @ ''_SEC_'' @ str_nat j
        \<and> (\<exists>k<j. \<not> kept (Some toc_page_one) (raw_sections doc_two_sections ! k))
        \<and> 0 < j
        \<and> str_nat (order (extract_sections doc_two_sections (Some toc_page_one) ! 0)) \<noteq> str_nat j)"
proof -
  let ?res = "extract_sections doc_two_sections (Some toc_page_one)"
  let ?raw = "raw_sections doc_two_sections"
  have len: "0 < length ?res" by code_simp
  from C10_section_ids[of doc_two_sections "Some toc_page_one", THEN conjunct2, rule_format, OF len]
  obtain j where j: "j < length ?raw"
    and id: "sectionId (?res ! 0) = documentId doc_two_sections @ ''_SEC_'' @ str_nat j"
    and imp: "(\<exists>k<j. \<not> kept (Some toc_page_one) (?raw ! k)) \<longrightarrow>
                0 < j \<and> str_nat (order (?res ! 0)) \<noteq> str_nat j"
    by blast
  have "sectionId (?res ! 0) = section_id (documentId doc_two_sections) 1" by code_simp
  with id have "j = 1" using section_id_inj[of "documentId doc_two_sections" j 1]
    by (simp add: section_id_def)
  moreover have "\<not> kept (Some toc_page_one) (?raw ! 0)" by code_simp
  ultimately have ex: "\<exists>k<j. \<not> kept (Some toc_page_one) (?raw ! k)" by auto
  with imp have "0 < j \<and> str_nat (order (?res ! 0)) \<noteq> str_nat j" by blast
  with len j id ex show ?thesis by blast
qed

end
